theory Spec2Isabelle
  imports
    Complex_Main
    "HOL-Library.List_Lexorder"
    "HOL-Library.Char_ord"
    "HOL-Library.While_Combinator"
    "HOL-Library.Multiset"
    "HOL-Library.Sublist"
begin

section \<open>Data model\<close>

text \<open>
  \<^verbatim>\<open>IncludeProcessing.cpp\<close> works on three classes whose code is not part of the
  sources at hand: \<^verbatim>\<open>FilePath\<close>, \<^verbatim>\<open>TextAccess\<close> and \<^verbatim>\<open>FileTree\<close>.

  A \<^verbatim>\<open>FilePath\<close> is modelled by its path string (\<^verbatim>\<open>str()\<close>); the default constructed
  \<^verbatim>\<open>FilePath()\<close> is the empty string and \<^verbatim>\<open>empty()\<close> tests for it. \<^verbatim>\<open>operator<\<close>, the
  order of every \<^verbatim>\<open>std::set<FilePath>\<close>, is the lexicographic order of the strings.

  A \<^verbatim>\<open>std::set<FilePath>\<close> is modelled by the sequence its iteration yields: a strictly
  increasing list. \<^verbatim>\<open>insert\<close> is \<open>insort_insert\<close>. The \<^verbatim>\<open>std::unordered_set<std::string>\<close>
  of processed paths is only ever inserted into and searched, so it is a \<open>string set\<close>.
\<close>

type_synonym FilePath = string

record IncludeDirective =
  includedFile :: FilePath
  includingFile :: FilePath
  lineNumber :: nat
  usesBrackets :: bool

record TextAccess =
  getFilePath :: FilePath
  getAllLines :: "string list"

text \<open>
  Everything the code asks of the file system goes through the methods of \<^verbatim>\<open>FilePath\<close>,
  \<^verbatim>\<open>TextAccess::createFromFile\<close> and \<^verbatim>\<open>FileTree\<close>. Their bodies are missing, so they are
  the fields of a record the functions below take as a parameter. \<open>concatenate\<close> stands for
  both \<^verbatim>\<open>concatenate\<close> (called on a temporary) and \<^verbatim>\<open>getConcatenated\<close>;
  \<open>getAbsoluteRootPathForRelativeFilePath root p\<close> is the lookup in the \<^verbatim>\<open>FileTree\<close> built
  for the searched path \<open>root\<close>.
\<close>

record FileSystem =
  isAbsolute :: "FilePath \<Rightarrow> bool"
  exists :: "FilePath \<Rightarrow> bool"
  getAbsolute :: "FilePath \<Rightarrow> FilePath"
  makeCanonical :: "FilePath \<Rightarrow> FilePath"
  getParentDirectory :: "FilePath \<Rightarrow> FilePath"
  concatenate :: "FilePath \<Rightarrow> FilePath \<Rightarrow> FilePath"
  contains :: "FilePath \<Rightarrow> FilePath \<Rightarrow> bool"
  createFromFile :: "FilePath \<Rightarrow> TextAccess"
  getAbsoluteRootPathForRelativeFilePath :: "FilePath \<Rightarrow> FilePath \<Rightarrow> FilePath"

section \<open>String utilities\<close>

text \<open>
  Modelled from the spec: \<^verbatim>\<open>utility::trim\<close>, \<^verbatim>\<open>utility::isPrefix\<close> and
  \<^verbatim>\<open>utility::substrBetween\<close> (\<^verbatim>\<open>utilityString.h\<close> is not among the sources). The spec has a
  line trimmed of whitespace, a literal prefix test, and the scan for the first pair of
  delimiters, whose content is empty when a delimiter is missing.
\<close>

definition isspace :: "char \<Rightarrow> bool" where
  "isspace c = (c \<in> set [CHR '' '', CHR 0x09, CHR 0x0A, CHR 0x0B, CHR 0x0C, CHR 0x0D])"

definition trim :: "string \<Rightarrow> string" where
  "trim s = rev (dropWhile isspace (rev (dropWhile isspace s)))"

definition isPrefix :: "string \<Rightarrow> string \<Rightarrow> bool" where
  "isPrefix p t = prefix p t"

fun find_str :: "string \<Rightarrow> string \<Rightarrow> nat option" where
  "find_str d [] = (if d = [] then Some 0 else None)"
| "find_str d (c # cs) =
     (if prefix d (c # cs) then Some 0 else map_option Suc (find_str d cs))"

definition substrBetween :: "string \<Rightarrow> string \<Rightarrow> string \<Rightarrow> string" where
  "substrBetween str delimiter1 delimiter2 =
     (case find_str delimiter1 str of
        None \<Rightarrow> []
      | Some i \<Rightarrow>
          (let rest = drop (i + length delimiter1) str in
           case find_str delimiter2 rest of
             None \<Rightarrow> []
           | Some j \<Rightarrow> take j rest))"

section \<open>The quantile partitioner\<close>

text \<open>
  \<^verbatim>\<open>splitToQuantiles\<close>: the vector of \<open>quantileCount\<close> empty vectors, then the loop over
  the set with its counter \<open>i\<close>. The counter is an \<^verbatim>\<open>int\<close> in the source; it stays below
  \<open>2^31\<close> for every set of fewer files than that, and is a natural number here.
\<close>

fun distribute ::
  "FilePath list \<Rightarrow> nat \<Rightarrow> nat \<Rightarrow> FilePath list list \<Rightarrow> FilePath list list" where
  "distribute [] i quantileCount quantiles = quantiles"
| "distribute (sourceFilePath # rest) i quantileCount quantiles =
     distribute rest (i + 1) quantileCount
       (quantiles[i mod quantileCount := quantiles ! (i mod quantileCount) @ [sourceFilePath]])"

definition splitToQuantiles :: "FilePath list \<Rightarrow> nat \<Rightarrow> FilePath list list" where
  "splitToQuantiles sourceFilePaths desiredQuantileCount =
     (let quantileCount = max 1 (min desiredQuantileCount (length sourceFilePaths)) in
      distribute sourceFilePaths 0 quantileCount (replicate quantileCount []))"

text \<open>\<^verbatim>\<open>utility::toSet\<close> and the range constructor of \<^verbatim>\<open>std::set\<close>: insert every element.\<close>

definition toSet :: "FilePath list \<Rightarrow> FilePath list" where
  "toSet v = fold insort_insert v []"

section \<open>The include directive extractor\<close>

text \<open>
  \<^verbatim>\<open>getIncludeDirectives(std::shared_ptr<TextAccess>)\<close>. \<open>lineDirective\<close> is the body of
  its loop for the line with the 0-based index \<open>i\<close>: the directive it pushes, if it pushes
  one. \<open>scanLines\<close> is the loop.
\<close>

definition lineDirective :: "FilePath \<Rightarrow> nat \<Rightarrow> string \<Rightarrow> IncludeDirective option" where
  "lineDirective path i line =
     (let lineTrimmedToHash = trim line in
      if isPrefix ''#'' lineTrimmedToHash then
        (let lineTrimmedToInclude = trim (drop 1 lineTrimmedToHash) in
         if isPrefix ''include'' lineTrimmedToInclude then
           (let angle = substrBetween lineTrimmedToInclude ''<'' ''>'';
                includeString =
                  (if angle = [] then substrBetween lineTrimmedToInclude [CHR 0x22] [CHR 0x22]
                   else angle);
                usesBrackets = (angle \<noteq> [])
            in
            if includeString \<noteq> [] then
              Some \<lparr>includedFile = includeString, includingFile = path,
                     lineNumber = i + 1, usesBrackets = usesBrackets\<rparr>
            else None)
         else None)
      else None)"

fun scanLines ::
  "FilePath \<Rightarrow> string list \<Rightarrow> nat \<Rightarrow> IncludeDirective list \<Rightarrow> IncludeDirective list" where
  "scanLines path [] i includeDirectives = includeDirectives"
| "scanLines path (line # rest) i includeDirectives =
     scanLines path rest (i + 1)
       (case lineDirective path i line of
          None \<Rightarrow> includeDirectives
        | Some includeDirective \<Rightarrow> includeDirectives @ [includeDirective])"

definition getIncludeDirectivesText :: "TextAccess \<Rightarrow> IncludeDirective list" where
  "getIncludeDirectivesText textAccess =
     scanLines (getFilePath textAccess) (getAllLines textAccess) 0 []"

text \<open>\<^verbatim>\<open>getIncludeDirectives(const FilePath&)\<close>.\<close>

definition getIncludeDirectives :: "FileSystem \<Rightarrow> FilePath \<Rightarrow> IncludeDirective list" where
  "getIncludeDirectives fs filePath =
     (if exists fs filePath then getIncludeDirectivesText (createFromFile fs filePath)
      else [])"

text \<open>
  What the spec calls the first pair of delimiters in a text, in the spec's words and
  not from the code: \<open>content\<close> stands between the first \<open>opening\<close> of the text and the
  first \<open>closing\<close> after it.
\<close>

definition firstPair :: "char \<Rightarrow> char \<Rightarrow> string \<Rightarrow> string \<Rightarrow> bool" where
  "firstPair opening closing text content =
     (\<exists>before after.
        text = before @ opening # content @ closing # after \<and>
        opening \<notin> set before \<and> closing \<notin> set content)"

section \<open>The include resolver\<close>

text \<open>\<^verbatim>\<open>resolveIncludeDirective\<close>: the three blocks in their order, each with its return.\<close>

fun searchDirectories :: "FileSystem \<Rightarrow> FilePath \<Rightarrow> FilePath list \<Rightarrow> FilePath" where
  "searchDirectories fs includedFilePath [] = []"
| "searchDirectories fs includedFilePath (headerSearchDirectory # rest) =
     (let resolvedIncludePath = concatenate fs headerSearchDirectory includedFilePath in
      if exists fs resolvedIncludePath then resolvedIncludePath
      else searchDirectories fs includedFilePath rest)"

definition resolveIncludeDirective ::
  "FileSystem \<Rightarrow> IncludeDirective \<Rightarrow> FilePath list \<Rightarrow> FilePath" where
  "resolveIncludeDirective fs includeDirective headerSearchDirectories =
     (let includedFilePath = includedFile includeDirective in
      if isAbsolute fs includedFilePath \<and> exists fs includedFilePath then includedFilePath
      else
        (let resolvedIncludePath =
               concatenate fs (getParentDirectory fs (includingFile includeDirective))
                 includedFilePath in
         if exists fs resolvedIncludePath then resolvedIncludePath
         else searchDirectories fs includedFilePath headerSearchDirectories))"

section \<open>Unresolved directive discovery\<close>

text \<open>
  \<^verbatim>\<open>doGetUnresolvedIncludeDirectives\<close>. The state of its while loop: the two sets of the
  source, the result vector, and a log that the source does not keep: \<open>extracted\<close> holds,
  for every turn of the loop, the files handed to \<^verbatim>\<open>getIncludeDirectives\<close> in that turn,
  in their order. The loop has no bound on its turns, so it is a \<open>while_option\<close>: a run
  that never leaves the loop is \<open>None\<close>.
\<close>

record UnresolvedWalk =
  filePathsToProcess :: "FilePath list"
  processedFilePaths :: "string set"
  unresolvedIncludeDirectives :: "IncludeDirective list"
  extracted :: "FilePath list list"

text \<open>
  Three expressions of the loop body: the key under which a file enters the processed
  paths (line 217), the canonical form of what the resolver returns (line 226), and the
  search through the indexed paths (lines 233 to 240).
\<close>

definition processedKey :: "FileSystem \<Rightarrow> FilePath \<Rightarrow> string" where
  "processedKey fs p = makeCanonical fs (getAbsolute fs p)"

definition resolvedCanonical :: "FileSystem \<Rightarrow> FilePath list \<Rightarrow> IncludeDirective \<Rightarrow> FilePath" where
  "resolvedCanonical fs headerSearchDirectories includeDirective =
     makeCanonical fs (resolveIncludeDirective fs includeDirective headerSearchDirectories)"

definition withinIndexedPaths :: "FileSystem \<Rightarrow> FilePath list \<Rightarrow> FilePath \<Rightarrow> bool" where
  "withinIndexedPaths fs indexedPaths resolvedIncludePath =
     (\<exists>indexedPath \<in> set indexedPaths. contains fs indexedPath resolvedIncludePath)"

text \<open>
  The body of the loop over the directives of one file (lines 226 to 241); the pair is
  \<^verbatim>\<open>unresolvedIncludeDirectives\<close> and \<^verbatim>\<open>filePathsToProcessForNextIteration\<close>.
\<close>

definition processDirective ::
  "FileSystem \<Rightarrow> string set \<Rightarrow> FilePath list \<Rightarrow> FilePath list \<Rightarrow> IncludeDirective \<Rightarrow>
   IncludeDirective list \<times> FilePath list \<Rightarrow> IncludeDirective list \<times> FilePath list" where
  "processDirective fs processed indexedPaths headerSearchDirectories includeDirective acc =
     (case acc of (unresolved, forNextIteration) \<Rightarrow>
       (let resolvedIncludePath =
              resolvedCanonical fs headerSearchDirectories includeDirective in
        if resolvedIncludePath = [] then (unresolved @ [includeDirective], forNextIteration)
        else if resolvedIncludePath \<notin> processed then
          (if withinIndexedPaths fs indexedPaths resolvedIncludePath
           then (unresolved, insort_insert resolvedIncludePath forNextIteration)
           else (unresolved, forNextIteration))
        else (unresolved, forNextIteration)))"

definition processFile ::
  "FileSystem \<Rightarrow> string set \<Rightarrow> FilePath list \<Rightarrow> FilePath list \<Rightarrow> FilePath \<Rightarrow>
   IncludeDirective list \<times> FilePath list \<Rightarrow> IncludeDirective list \<times> FilePath list" where
  "processFile fs processed indexedPaths headerSearchDirectories filePath acc =
     fold (processDirective fs processed indexedPaths headerSearchDirectories)
       (getIncludeDirectives fs filePath) acc"

text \<open>One turn of the while loop (lines 214 to 245).\<close>

definition walkStep ::
  "FileSystem \<Rightarrow> FilePath list \<Rightarrow> FilePath list \<Rightarrow> UnresolvedWalk \<Rightarrow> UnresolvedWalk" where
  "walkStep fs indexedPaths headerSearchDirectories s =
     (let processed =
            processedFilePaths s \<union> processedKey fs ` set (filePathsToProcess s) in
      case fold (processFile fs processed indexedPaths headerSearchDirectories)
             (filePathsToProcess s) (unresolvedIncludeDirectives s, []) of
        (unresolved, forNextIteration) \<Rightarrow>
          \<lparr>filePathsToProcess = forNextIteration,
           processedFilePaths = processed,
           unresolvedIncludeDirectives = unresolved,
           extracted = extracted s @ [filePathsToProcess s]\<rparr>)"

text \<open>
  The function returns its vector; the processed paths are a reference parameter, so the
  caller sees them changed; the log comes third.
\<close>

definition doGetUnresolvedIncludeDirectives ::
  "FileSystem \<Rightarrow> FilePath list \<Rightarrow> string set \<Rightarrow> FilePath list \<Rightarrow> FilePath list \<Rightarrow>
   (IncludeDirective list \<times> string set \<times> FilePath list list) option" where
  "doGetUnresolvedIncludeDirectives fs toProcess processed indexedPaths headerSearchDirectories =
     map_option
       (\<lambda>s. (unresolvedIncludeDirectives s, processedFilePaths s, extracted s))
       (while_option (\<lambda>s. filePathsToProcess s \<noteq> [])
          (walkStep fs indexedPaths headerSearchDirectories)
          \<lparr>filePathsToProcess = toProcess, processedFilePaths = processed,
           unresolvedIncludeDirectives = [], extracted = []\<rparr>)"

text \<open>
  \<^verbatim>\<open>getUnresolvedIncludeDirectives\<close>. \<open>unresolvedSet\<close> is the
  \<^verbatim>\<open>std::set<IncludeDirective, IncludeDirectiveComparator>\<close>: the comparator reads the
  included file only, so an insertion is \<open>insort_insert_key includedFile\<close>. \<open>progressed\<close> is
  the sequence of the arguments of the calls of \<^verbatim>\<open>progress\<close>; the quotient
  \<^verbatim>\<open>float(i) / quantiles.size()\<close> is the exact one (the rounding to a \<^verbatim>\<open>float\<close> is left
  out). \<open>shardLogs\<close> collects the log of every call of
  \<^verbatim>\<open>doGetUnresolvedIncludeDirectives\<close>. \<open>unresolvedShards\<close> is the loop over the shards from
  the index \<open>i\<close> on: the call of \<^verbatim>\<open>progress\<close>, then the walk of the shard, then the copy
  of its directives into the set. A walk that does not return leaves no state behind, so
  the state of the next turn is written in one step.
\<close>

record UnresolvedRun =
  processedAcrossShards :: "string set"
  unresolvedSet :: "IncludeDirective list"
  progressed :: "real list"
  shardLogs :: "FilePath list list list"

fun unresolvedShards ::
  "FileSystem \<Rightarrow> FilePath list \<Rightarrow> FilePath list \<Rightarrow> FilePath list list \<Rightarrow> nat \<Rightarrow> nat \<Rightarrow>
   UnresolvedRun \<Rightarrow> UnresolvedRun option" where
  "unresolvedShards fs indexedPaths headerSearchDirectories [] i quantilesSize r = Some r"
| "unresolvedShards fs indexedPaths headerSearchDirectories (quantile # rest) i quantilesSize r =
     (case doGetUnresolvedIncludeDirectives fs (toSet quantile) (processedAcrossShards r)
             indexedPaths headerSearchDirectories of
        None \<Rightarrow> None
      | Some (directives, processed, turns) \<Rightarrow>
          unresolvedShards fs indexedPaths headerSearchDirectories rest (i + 1) quantilesSize
            \<lparr>processedAcrossShards = processed,
             unresolvedSet = fold (insort_insert_key includedFile) directives (unresolvedSet r),
             progressed = progressed r @ [real i / real quantilesSize],
             shardLogs = shardLogs r @ [turns]\<rparr>)"

text \<open>The result: the returned vector, the progress values, and the log.\<close>

definition getUnresolvedIncludeDirectives ::
  "FileSystem \<Rightarrow> FilePath list \<Rightarrow> FilePath list \<Rightarrow> FilePath list \<Rightarrow> nat \<Rightarrow>
   (IncludeDirective list \<times> real list \<times> FilePath list list list) option" where
  "getUnresolvedIncludeDirectives fs sourceFilePaths indexedPaths headerSearchDirectories
     desiredQuantileCount =
     (let quantiles = splitToQuantiles sourceFilePaths desiredQuantileCount in
      case unresolvedShards fs indexedPaths headerSearchDirectories quantiles 0
             (length quantiles)
             \<lparr>processedAcrossShards = {}, unresolvedSet = [], progressed = [],
              shardLogs = []\<rparr> of
        None \<Rightarrow> None
      | Some r \<Rightarrow> Some (unresolvedSet r, progressed r @ [1], shardLogs r))"

text \<open>
  For the statements below: the directives of a file for which the resolver finds
  nothing, in their order.
\<close>

definition unresolvedIn :: "FileSystem \<Rightarrow> FilePath list \<Rightarrow> FilePath \<Rightarrow> IncludeDirective list" where
  "unresolvedIn fs headerSearchDirectories filePath =
     filter (\<lambda>d. resolvedCanonical fs headerSearchDirectories d = [])
       (getIncludeDirectives fs filePath)"

text \<open>
  For the statements below, what a log of one call of
  \<^verbatim>\<open>doGetUnresolvedIncludeDirectives\<close> looks like, given the processed paths the call
  received and the files it was to process. The first turn has those files. A later turn
  is a set (strictly increasing) of non-empty paths, each the canonical resolved path of a
  directive of a file of the turn before, within an indexed path, and neither among the
  paths received nor the key of a file of an earlier turn. \<open>walkInv\<close> is the invariant of
  the loop that gives such a log.
\<close>

definition reachedTurn ::
  "FileSystem \<Rightarrow> FilePath list \<Rightarrow> FilePath list \<Rightarrow> string set \<Rightarrow> FilePath list \<Rightarrow>
   FilePath list \<Rightarrow> bool" where
  "reachedTurn fs indexedPaths hdrs processed previous turn =
     (sorted_wrt (<) turn \<and>
      (\<forall>q\<in>set turn.
         q \<noteq> [] \<and> q \<notin> processed \<and> withinIndexedPaths fs indexedPaths q \<and>
         (\<exists>f\<in>set previous. \<exists>d\<in>set (getIncludeDirectives fs f).
            q = resolvedCanonical fs hdrs d)))"

definition walkLog ::
  "FileSystem \<Rightarrow> FilePath list \<Rightarrow> FilePath list \<Rightarrow> string set \<Rightarrow> FilePath list \<Rightarrow>
   FilePath list list \<Rightarrow> bool" where
  "walkLog fs indexedPaths hdrs processed seeds turns =
     ((turns \<noteq> [] \<longrightarrow> hd turns = seeds) \<and>
      (\<forall>t. 0 < t \<and> t < length turns \<longrightarrow>
         reachedTurn fs indexedPaths hdrs
           (processed \<union> processedKey fs ` set (concat (take t turns)))
           (turns ! (t - 1)) (turns ! t)))"

definition walkInv ::
  "FileSystem \<Rightarrow> FilePath list \<Rightarrow> FilePath list \<Rightarrow> string set \<Rightarrow> FilePath list \<Rightarrow>
   UnresolvedWalk \<Rightarrow> bool" where
  "walkInv fs indexedPaths hdrs processed seeds s =
     (processedFilePaths s = processed \<union> processedKey fs ` set (concat (extracted s)) \<and>
      walkLog fs indexedPaths hdrs processed seeds (extracted s @ [filePathsToProcess s]) \<and>
      unresolvedIncludeDirectives s = concat (map (unresolvedIn fs hdrs) (concat (extracted s))))"

text \<open>
  What the comparator makes of the result set: increasing in the included file, and no
  included file twice.
\<close>

definition orderedByIncludedFile :: "IncludeDirective list \<Rightarrow> bool" where
  "orderedByIncludedFile ds = (sorted (map includedFile ds) \<and> distinct (map includedFile ds))"

section \<open>Header search directory discovery\<close>

text \<open>
  \<^verbatim>\<open>getHeaderSearchDirectories\<close> is one function, so one state holds all it changes: the
  frontier and the processed paths of the while loop, the result set, the progress values
  so far, and the log of the files handed to \<^verbatim>\<open>getIncludeDirectives\<close>, one list per turn of
  the while loop.
\<close>

record Discovery =
  unprocessedFilePaths :: "FilePath list"
  processedStrings :: "string set"
  discoveredDirectories :: "FilePath list"
  progressValues :: "real list"
  discoveryLog :: "FilePath list list"

text \<open>
  The loop over the file trees (lines 127 to 140): \<open>found\<close> is \<^verbatim>\<open>foundIncludedPath\<close>, which
  every tree with a root for the included path overwrites, and the first one whose
  concatenation exists ends the loop.
\<close>

fun searchFileTrees ::
  "FileSystem \<Rightarrow> FilePath \<Rightarrow> FilePath list \<Rightarrow> FilePath \<times> FilePath list \<Rightarrow>
   FilePath \<times> FilePath list" where
  "searchFileTrees fs includedFilePath [] acc = acc"
| "searchFileTrees fs includedFilePath (existingFileTree # rest) acc =
     (case acc of (found, searchDirs) \<Rightarrow>
       (let rootPath = getAbsoluteRootPathForRelativeFilePath fs existingFileTree includedFilePath in
        if rootPath \<noteq> [] then
          (let foundIncludedPath = concatenate fs rootPath includedFilePath in
           if exists fs foundIncludedPath
           then (foundIncludedPath, insort_insert rootPath searchDirs)
           else searchFileTrees fs includedFilePath rest (foundIncludedPath, searchDirs))
        else searchFileTrees fs includedFilePath rest (found, searchDirs)))"

text \<open>
  The body of the loop over the directives of one file (lines 122 to 148); the pair is
  \<^verbatim>\<open>headerSearchDirectories\<close> and \<^verbatim>\<open>unprocessedFilePathsForNextIteration\<close>.
\<close>

definition discoverDirective ::
  "FileSystem \<Rightarrow> FilePath list \<Rightarrow> FilePath list \<Rightarrow> string set \<Rightarrow> IncludeDirective \<Rightarrow>
   FilePath list \<times> FilePath list \<Rightarrow> FilePath list \<times> FilePath list" where
  "discoverDirective fs existingFileTrees currentHeaderSearchDirectories processed
     includeDirective acc =
     (case acc of (searchDirs, forNextIteration) \<Rightarrow>
       (let includedFilePath = includedFile includeDirective;
            resolved = resolveIncludeDirective fs includeDirective currentHeaderSearchDirectories
        in
        case (if resolved = []
              then searchFileTrees fs includedFilePath existingFileTrees (resolved, searchDirs)
              else (resolved, searchDirs)) of
          (foundIncludedPath, searchDirs') \<Rightarrow>
            if exists fs foundIncludedPath \<and> foundIncludedPath \<notin> processed
            then (searchDirs', insort_insert foundIncludedPath forNextIteration)
            else (searchDirs', forNextIteration)))"

definition discoverFile ::
  "FileSystem \<Rightarrow> FilePath list \<Rightarrow> FilePath list \<Rightarrow> string set \<Rightarrow> FilePath \<Rightarrow>
   FilePath list \<times> FilePath list \<Rightarrow> FilePath list \<times> FilePath list" where
  "discoverFile fs existingFileTrees currentHeaderSearchDirectories processed filePath acc =
     fold (discoverDirective fs existingFileTrees currentHeaderSearchDirectories processed)
       (getIncludeDirectives fs filePath) acc"

text \<open>One turn of the while loop (lines 110 to 152).\<close>

definition discoverStep ::
  "FileSystem \<Rightarrow> FilePath list \<Rightarrow> FilePath list \<Rightarrow> Discovery \<Rightarrow> Discovery" where
  "discoverStep fs existingFileTrees currentHeaderSearchDirectories s =
     (let processed = processedStrings s \<union> getAbsolute fs ` set (unprocessedFilePaths s) in
      case fold (discoverFile fs existingFileTrees currentHeaderSearchDirectories processed)
             (unprocessedFilePaths s) (discoveredDirectories s, []) of
        (searchDirs, forNextIteration) \<Rightarrow>
          s\<lparr>unprocessedFilePaths := forNextIteration,
            processedStrings := processed,
            discoveredDirectories := searchDirs,
            discoveryLog := discoveryLog s @ [unprocessedFilePaths s]\<rparr>)"

text \<open>The state in which the while loop of shard \<open>i\<close> starts (lines 104 to 106).\<close>

definition enterShard :: "FilePath list \<Rightarrow> nat \<Rightarrow> nat \<Rightarrow> Discovery \<Rightarrow> Discovery" where
  "enterShard quantile i quantilesSize s =
     s\<lparr>progressValues := progressValues s @ [real i / real quantilesSize],
       unprocessedFilePaths := toSet quantile\<rparr>"

fun discoveryShards ::
  "FileSystem \<Rightarrow> FilePath list \<Rightarrow> FilePath list \<Rightarrow> FilePath list list \<Rightarrow> nat \<Rightarrow> nat \<Rightarrow>
   Discovery \<Rightarrow> Discovery option" where
  "discoveryShards fs existingFileTrees currentHeaderSearchDirectories [] i quantilesSize s = Some s"
| "discoveryShards fs existingFileTrees currentHeaderSearchDirectories (quantile # rest) i quantilesSize s =
     (case while_option (\<lambda>s. unprocessedFilePaths s \<noteq> [])
             (discoverStep fs existingFileTrees currentHeaderSearchDirectories)
             (enterShard quantile i quantilesSize s) of
        None \<Rightarrow> None
      | Some s' \<Rightarrow>
          discoveryShards fs existingFileTrees currentHeaderSearchDirectories rest (i + 1) quantilesSize s')"

text \<open>The state after \<^verbatim>\<open>progress(0.0f)\<close> and the declarations (lines 90 to 100).\<close>

definition discoveryStart :: Discovery where
  "discoveryStart =
     \<lparr>unprocessedFilePaths = [], processedStrings = {}, discoveredDirectories = [],
      progressValues = [0], discoveryLog = []\<rparr>"

text \<open>The result: the returned set, the progress values, and the log.\<close>

definition getHeaderSearchDirectories ::
  "FileSystem \<Rightarrow> FilePath list \<Rightarrow> FilePath list \<Rightarrow> FilePath list \<Rightarrow> nat \<Rightarrow>
   (FilePath list \<times> real list \<times> FilePath list list) option" where
  "getHeaderSearchDirectories fs sourceFilePaths searchedPaths currentHeaderSearchDirectories
     desiredQuantileCount =
     (let quantiles = splitToQuantiles sourceFilePaths desiredQuantileCount in
      case discoveryShards fs searchedPaths currentHeaderSearchDirectories quantiles 0
             (length quantiles) discoveryStart of
        None \<Rightarrow> None
      | Some s \<Rightarrow> Some (discoveredDirectories s, progressValues s @ [1], discoveryLog s))"

section \<open>What the spec asks of the path primitives\<close>

text \<open>
  Modelled from the spec: the laws of \<^verbatim>\<open>FilePath\<close>, whose code is not among the sources.
  The spec has canonicalization idempotent and the canonical form of a file on disk
  unique and absolute; with the finitely many files of a disk this gives: the existing
  paths have finitely many canonical forms, the empty path stays empty, and the canonical
  form of an existing path is its own key in the processed paths.
\<close>

definition canonicalFileSystem :: "FileSystem \<Rightarrow> bool" where
  "canonicalFileSystem fs =
     (finite (makeCanonical fs ` {p. exists fs p}) \<and>
      makeCanonical fs [] = [] \<and>
      (\<forall>p. exists fs p \<longrightarrow> processedKey fs (makeCanonical fs p) = makeCanonical fs p))"

section \<open>A file system for the examples\<close>

text \<open>
  The examples below run the functions on a small file system: a working directory and a
  list of files, each an absolute path with its lines. A path is absolute when it starts
  with a slash, a relative path is read from the working directory, the parent directory
  drops the last component, and a path exists when its absolute form is one of the files.
  No path in the examples has a link or a dot component, so the canonical form of a path
  is its absolute form.
\<close>

definition parentOf :: "FilePath \<Rightarrow> FilePath" where
  "parentOf p = rev (drop 1 (dropWhile (\<lambda>c. c \<noteq> CHR ''/'') (rev p)))"

definition absoluteIn :: "FilePath \<Rightarrow> FilePath \<Rightarrow> FilePath" where
  "absoluteIn cwd p = (if take 1 p = ''/'' then p else cwd @ ''/'' @ p)"

definition exampleFS :: "FilePath \<Rightarrow> (FilePath \<times> string list) list \<Rightarrow> FileSystem" where
  "exampleFS cwd files =
     \<lparr>isAbsolute = (\<lambda>p. take 1 p = ''/''),
      exists = (\<lambda>p. p \<noteq> [] \<and> absoluteIn cwd p \<in> fst ` set files),
      getAbsolute = absoluteIn cwd,
      makeCanonical = (\<lambda>p. if p = [] then [] else absoluteIn cwd p),
      getParentDirectory = parentOf,
      concatenate = (\<lambda>a b. if a = [] then b else a @ ''/'' @ b),
      contains = (\<lambda>a b. a = b \<or> prefix (a @ ''/'') b),
      createFromFile =
        (\<lambda>p. \<lparr>getFilePath = p,
              getAllLines = (case map_of files (absoluteIn cwd p) of
                               None \<Rightarrow> [] | Some ls \<Rightarrow> ls)\<rparr>),
      getAbsoluteRootPathForRelativeFilePath =
        (\<lambda>root p. if root @ ''/'' @ p \<in> fst ` set files then root else [])\<rparr>"

text \<open>
  A project \<^verbatim>\<open>/p\<close> whose source file includes a file that is nowhere and its own
  header, which includes another file that is nowhere and the first one again.
\<close>

definition projectFS :: FileSystem where
  "projectFS =
     exampleFS ''/p''
       [(''/p/a.cpp'', [''#include <vector>'', ''int x;'', ''#include \"b.h\"'']),
        (''/p/b.h'', [''#include <missing.h>'', '' # include <vector> // again''])]"

text \<open>
  A project \<^verbatim>\<open>/p\<close> that includes, by its absolute path, a header of \<^verbatim>\<open>/ext\<close>, which
  includes a file that is nowhere.
\<close>

definition externalFS :: FileSystem where
  "externalFS =
     exampleFS ''/p''
       [(''/p/a.cpp'', [''#include \"/ext/x.h\"'']),
        (''/ext/x.h'', [''#include <missing.h>''])]"

text \<open>
  A header \<^verbatim>\<open>b.h\<close> that is both beside the including file and under the search
  directory \<^verbatim>\<open>/inc\<close>.
\<close>

definition twoRootsFS :: FileSystem where
  "twoRootsFS =
     exampleFS ''/p''
       [(''/p/a.cpp'', [''#include <b.h>'', ''#include <c.h>'']),
        (''/p/b.h'', []), (''/inc/b.h'', []), (''/inc/c.h'', [])]"

text \<open>
  Two headers of the project \<^verbatim>\<open>/p\<close> that include each other; the second includes a
  file that is nowhere.
\<close>

definition cycleFS :: FileSystem where
  "cycleFS =
     exampleFS ''/p''
       [(''/p/a.h'', [''#include \"b.h\"'']),
        (''/p/b.h'', [''#include \"a.h\"'', ''#include <missing.h>''])]"

text \<open>
  The two worked examples of the spec: the source file with two includes whose header
  has one more, and the source file whose include is found under the snapshot root
  \<^verbatim>\<open>/ext\<close> only.
\<close>

definition roundTripFS :: FileSystem where
  "roundTripFS =
     exampleFS ''/p''
       [(''/p/a.cpp'', [''#include <vector>'', '''', ''#include \"b.h\"'']),
        (''/p/b.h'', [''#include <missing.h>''])]"

definition snapshotFS :: FileSystem where
  "snapshotFS =
     exampleFS ''/p''
       [(''/p/a.cpp'', [''#include \"sub/x.h\"'']),
        (''/ext/sub/x.h'', [])]"

text \<open>A header in the working directory \<^verbatim>\<open>/w\<close> that includes itself.\<close>

definition selfIncludeFS :: FileSystem where
  "selfIncludeFS = exampleFS ''/w'' [(''/w/a.h'', [''#include \"a.h\"''])]"

text \<open>
  What stays true of the state of \<^verbatim>\<open>getHeaderSearchDirectories\<close> through every turn of
  its while loop on that header.
\<close>

definition selfIncludeInv :: "Discovery \<Rightarrow> bool" where
  "selfIncludeInv s =
     (unprocessedFilePaths s = [''a.h''] \<and> processedStrings s \<subseteq> {''/w/a.h''} \<and>
      progressValues s = [0, 0])"

section \<open>The worked examples of the spec\<close>

text \<open>
  The model gives what the spec states for its two examples: the two unresolved
  directives of the first, with \<^verbatim>\<open>b.h\<close> resolved and expanded, and the search directory
  \<^verbatim>\<open>/ext\<close> of the second, with \<^verbatim>\<open>x.h\<close> processed.
\<close>

lemma spec_round_trip:
  "getUnresolvedIncludeDirectives roundTripFS [''/p/a.cpp''] [''/p''] [] 1 =
     Some ([\<lparr>includedFile = ''missing.h'', includingFile = ''/p/b.h'', lineNumber = 1,
               usesBrackets = True\<rparr>,
            \<lparr>includedFile = ''vector'', includingFile = ''/p/a.cpp'', lineNumber = 1,
               usesBrackets = True\<rparr>],
           [0, 1], [[[''/p/a.cpp''], [''/p/b.h'']]])"
  by code_simp

lemma spec_discovery:
  "getHeaderSearchDirectories snapshotFS [''/p/a.cpp''] [''/ext''] [] 1 =
     Some ([''/ext''], [0, 0, 1], [[''/p/a.cpp''], [''/ext/sub/x.h'']])"
  by code_simp

section \<open>Properties of the partitioner\<close>

lemma length_distribute:
  "length (distribute ps i qc qs) = length qs"
  by (induction ps arbitrary: i qs) simp_all

lemma upt_Suc_shift: "[0..<Suc n] = 0 # map Suc [0..<n]"
  by (simp add: upt_conv_Cons map_Suc_upt del: upt_Suc)

lemma distribute_nth:
  "length qs = qc \<Longrightarrow> j < qc \<Longrightarrow>
   distribute ps i qc qs ! j =
     qs ! j @ map (\<lambda>k. ps ! k) (filter (\<lambda>k. (i + k) mod qc = j) [0..<length ps])"
proof (induction ps arbitrary: i qs)
  case Nil
  then show ?case by simp
next
  case (Cons p rest)
  let ?qs' = "qs[i mod qc := qs ! (i mod qc) @ [p]]"
  have len: "length ?qs' = qc" using Cons.prems by simp
  have imod: "i mod qc < qc" using Cons.prems by simp
  have step: "distribute rest (i + 1) qc ?qs' ! j =
      ?qs' ! j @ map (\<lambda>k. rest ! k) (filter (\<lambda>k. (i + 1 + k) mod qc = j) [0..<length rest])"
    using Cons.IH[OF len Cons.prems(2)] .
  have hd: "?qs' ! j = (if i mod qc = j then qs ! j @ [p] else qs ! j)"
    using Cons.prems imod by (auto simp: nth_list_update)
  have tl: "map (\<lambda>k. (p # rest) ! k) (filter (\<lambda>k. (i + k) mod qc = j) [0..<length (p # rest)]) =
      (if i mod qc = j then [p] else []) @
      map (\<lambda>k. rest ! k) (filter (\<lambda>k. (i + 1 + k) mod qc = j) [0..<length rest])"
    by (simp add: upt_Suc_shift filter_map comp_def del: upt_Suc)
  show ?case using step hd tl by simp
qed

lemma mset_concat_update:
  "k < length qs \<Longrightarrow> mset (concat (qs[k := qs ! k @ [p]])) = add_mset p (mset (concat qs))"
proof (induction qs arbitrary: k)
  case Nil
  then show ?case by simp
next
  case (Cons q qs)
  then show ?case by (cases k) simp_all
qed

lemma mset_concat_distribute:
  "length qs = qc \<Longrightarrow> 0 < qc \<Longrightarrow>
   mset (concat (distribute ps i qc qs)) = mset (concat qs) + mset ps"
proof (induction ps arbitrary: i qs)
  case Nil
  then show ?case by simp
next
  case (Cons p rest)
  have "i mod qc < length qs" using Cons.prems by simp
  then show ?case using Cons by (simp add: mset_concat_update)
qed

lemma concat_replicate_Nil: "concat (replicate n []) = []"
  by (induction n) simp_all

lemma length_splitToQuantiles:
  "length (splitToQuantiles xs K) = max 1 (min K (length xs))"
  by (simp add: splitToQuantiles_def Let_def length_distribute)

lemma mset_splitToQuantiles: "mset (concat (splitToQuantiles xs K)) = mset xs"
  by (simp add: splitToQuantiles_def Let_def mset_concat_distribute concat_replicate_Nil)

lemma nth_splitToQuantiles:
  "j < max 1 (min K (length xs)) \<Longrightarrow>
   splitToQuantiles xs K ! j =
     map (\<lambda>k. xs ! k) (filter (\<lambda>k. k mod max 1 (min K (length xs)) = j) [0..<length xs])"
  by (simp add: splitToQuantiles_def Let_def distribute_nth)

lemma distinct_concat_disjoint:
  assumes "distinct (concat qs)" "j < k" "k < length qs"
  shows "set (qs ! j) \<inter> set (qs ! k) = {}"
proof -
  have "qs = take k qs @ qs ! k # drop (Suc k) qs" using assms by (simp add: id_take_nth_drop)
  then have "distinct (concat (take k qs) @ qs ! k @ concat (drop (Suc k) qs))"
    using assms(1) by (metis concat.simps(2) concat_append)
  then have "set (concat (take k qs)) \<inter> set (qs ! k) = {}" by auto
  moreover have "qs ! j \<in> set (take k qs)" using assms by (metis in_set_conv_nth length_take min.absorb2 nth_take less_imp_le_nat)
  ultimately show ?thesis by auto
qed

text \<open>
  Claim C5, as amended. For a set of source files (a strictly increasing list) and a
  desired count \<open>K\<close>, \<^verbatim>\<open>splitToQuantiles\<close> returns \<open>max 1 (min K N)\<close> shards, which is
  between 1 and \<open>min K N\<close> when neither \<open>K\<close> nor the set is empty; shard \<open>j\<close> holds, in
  the sorted order, the files at the positions \<open>i\<close> with \<open>i mod\<close> the shard count \<open>= j\<close>;
  the shards are pairwise disjoint, and their concatenation has the files of the input
  and no file twice.
\<close>

theorem splitToQuantiles_partition:
  fixes sourceFilePaths :: "FilePath list" and K :: nat
  assumes "sorted_wrt (<) sourceFilePaths"
  defines "qs \<equiv> splitToQuantiles sourceFilePaths K"
  shows
  "length qs = max 1 (min K (length sourceFilePaths)) \<and>
   (0 < K \<and> 0 < length sourceFilePaths \<longrightarrow> 1 \<le> length qs \<and> length qs \<le> min K (length sourceFilePaths)) \<and>
   (\<forall>j<length qs. qs ! j =
      map (\<lambda>i. sourceFilePaths ! i) (filter (\<lambda>i. i mod length qs = j) [0..<length sourceFilePaths])) \<and>
   (\<forall>i<length sourceFilePaths. sourceFilePaths ! i \<in> set (qs ! (i mod length qs))) \<and>
   (\<forall>j k. j < k \<and> k < length qs \<longrightarrow> set (qs ! j) \<inter> set (qs ! k) = {}) \<and>
   set (concat qs) = set sourceFilePaths \<and>
   distinct (concat qs)"
proof -
  have len: "length qs = max 1 (min K (length sourceFilePaths))"
    unfolding qs_def by (rule length_splitToQuantiles)
  have nth: "qs ! j =
      map (\<lambda>i. sourceFilePaths ! i) (filter (\<lambda>i. i mod length qs = j) [0..<length sourceFilePaths])"
    if "j < length qs" for j
    using that nth_splitToQuantiles [of j K sourceFilePaths] len unfolding qs_def by simp
  have ms: "mset (concat qs) = mset sourceFilePaths"
    unfolding qs_def by (rule mset_splitToQuantiles)
  have dist_in: "distinct sourceFilePaths"
    using assms(1) strict_sorted_iff by blast
  have dist: "distinct (concat qs)"
    using ms dist_in mset_eq_imp_distinct_iff by blast
  have sets: "set (concat qs) = set sourceFilePaths"
    using ms mset_eq_setD by blast
  have pos: "0 < length qs" using len by simp
  have member: "sourceFilePaths ! i \<in> set (qs ! (i mod length qs))"
    if "i < length sourceFilePaths" for i
  proof -
    have "i mod length qs < length qs" using pos by simp
    then have "qs ! (i mod length qs) =
      map (\<lambda>k. sourceFilePaths ! k)
        (filter (\<lambda>k. k mod length qs = i mod length qs) [0..<length sourceFilePaths])"
      by (rule nth)
    moreover have "i \<in> set (filter (\<lambda>k. k mod length qs = i mod length qs) [0..<length sourceFilePaths])"
      using that by simp
    ultimately show ?thesis by (metis (no_types, lifting) image_eqI set_map)
  qed
  have disj: "set (qs ! j) \<inter> set (qs ! k) = {}" if "j < k" "k < length qs" for j k
    using dist that by (rule distinct_concat_disjoint)
  have bounds: "0 < K \<and> 0 < length sourceFilePaths \<longrightarrow>
      1 \<le> length qs \<and> length qs \<le> min K (length sourceFilePaths)"
    using len by (cases sourceFilePaths) auto
  from len bounds nth member disj sets dist show ?thesis by blast
qed

theorem splitToQuantiles_partition_witness:
  "sorted_wrt (<) [''a.cpp'', ''b.cpp'', ''c.cpp''] \<and>
   splitToQuantiles [''a.cpp'', ''b.cpp'', ''c.cpp''] 2 = [[''a.cpp'', ''c.cpp''], [''b.cpp'']] \<and>
   length (splitToQuantiles [''a.cpp'', ''b.cpp'', ''c.cpp''] 2) = 2 \<and>
   set (concat (splitToQuantiles [''a.cpp'', ''b.cpp'', ''c.cpp''] 2)) = {''a.cpp'', ''b.cpp'', ''c.cpp''} \<and>
   distinct (concat (splitToQuantiles [''a.cpp'', ''b.cpp'', ''c.cpp''] 2))"
proof -
  have h: "sorted_wrt (<) [''a.cpp'', ''b.cpp'', ''c.cpp'']"
    by (simp add: less_char_def)
  have v: "splitToQuantiles [''a.cpp'', ''b.cpp'', ''c.cpp''] 2 = [[''a.cpp'', ''c.cpp''], [''b.cpp'']]"
    by (simp add: splitToQuantiles_def)
  from h v splitToQuantiles_partition [OF h, of 2] show ?thesis by simp
qed

text \<open>
  Claim C5 as it is written fails for the empty set: one shard is returned, and
  \<open>min K N\<close> is 0.
\<close>

theorem splitToQuantiles_count_counterexample:
  "\<not> (1 \<le> length (splitToQuantiles [] 3) \<and>
      length (splitToQuantiles [] 3) \<le> min 3 (length ([] :: FilePath list)))"
  by (simp add: splitToQuantiles_def)

section \<open>Properties of the resolver\<close>

lemma searchDirectories_first:
  "k < length dirs \<Longrightarrow> exists fs (concatenate fs (dirs ! k) inc) \<Longrightarrow>
   (\<forall>j<k. \<not> exists fs (concatenate fs (dirs ! j) inc)) \<Longrightarrow>
   searchDirectories fs inc dirs = concatenate fs (dirs ! k) inc"
proof (induction dirs arbitrary: k)
  case Nil
  then show ?case by simp
next
  case (Cons h rest)
  show ?case
  proof (cases k)
    case 0
    then show ?thesis using Cons.prems by simp
  next
    case (Suc k')
    have "\<not> exists fs (concatenate fs h inc)" using Cons.prems(3) Suc by auto
    moreover have "searchDirectories fs inc rest = concatenate fs (rest ! k') inc"
      using Cons.prems Suc by (intro Cons.IH) auto
    ultimately show ?thesis using Suc by simp
  qed
qed

lemma searchDirectories_none:
  "(\<forall>h\<in>set dirs. \<not> exists fs (concatenate fs h inc)) \<Longrightarrow> searchDirectories fs inc dirs = []"
  by (induction dirs) simp_all

text \<open>
  Claim C1. \<^verbatim>\<open>resolveIncludeDirective\<close> returns the written path when it is absolute
  and exists; otherwise the parent directory of the including file concatenated with the
  written path when that exists, whatever the search directories hold; otherwise the
  concatenation with the first search directory, in the order of the set, for which it
  exists; otherwise the empty path. The bracket form of the directive changes nothing.
\<close>

theorem resolveIncludeDirective_precedence:
  fixes fs :: FileSystem and d :: IncludeDirective and dirs :: "FilePath list"
  defines "inc \<equiv> includedFile d"
  defines "rel \<equiv> concatenate fs (getParentDirectory fs (includingFile d)) (includedFile d)"
  shows
  "(isAbsolute fs inc \<and> exists fs inc \<longrightarrow> resolveIncludeDirective fs d dirs = inc) \<and>
   (\<not> (isAbsolute fs inc \<and> exists fs inc) \<and> exists fs rel \<longrightarrow>
      resolveIncludeDirective fs d dirs = rel) \<and>
   (\<forall>k. \<not> (isAbsolute fs inc \<and> exists fs inc) \<and> \<not> exists fs rel \<and> k < length dirs \<and>
        exists fs (concatenate fs (dirs ! k) inc) \<and>
        (\<forall>j<k. \<not> exists fs (concatenate fs (dirs ! j) inc)) \<longrightarrow>
      resolveIncludeDirective fs d dirs = concatenate fs (dirs ! k) inc) \<and>
   (\<not> (isAbsolute fs inc \<and> exists fs inc) \<and> \<not> exists fs rel \<and>
      (\<forall>h\<in>set dirs. \<not> exists fs (concatenate fs h inc)) \<longrightarrow>
      resolveIncludeDirective fs d dirs = []) \<and>
   (\<forall>b. resolveIncludeDirective fs (d\<lparr>usesBrackets := b\<rparr>) dirs =
      resolveIncludeDirective fs d dirs)"
  unfolding inc_def rel_def
  by (auto simp: resolveIncludeDirective_def Let_def searchDirectories_first searchDirectories_none)

theorem resolveIncludeDirective_precedence_witness:
  "resolveIncludeDirective twoRootsFS
     \<lparr>includedFile = ''b.h'', includingFile = ''/p/a.cpp'', lineNumber = 1, usesBrackets = True\<rparr>
     [''/inc''] = ''/p/b.h'' \<and>
   resolveIncludeDirective twoRootsFS
     \<lparr>includedFile = ''b.h'', includingFile = ''/p/a.cpp'', lineNumber = 1, usesBrackets = False\<rparr>
     [''/inc''] = ''/p/b.h'' \<and>
   resolveIncludeDirective twoRootsFS
     \<lparr>includedFile = ''c.h'', includingFile = ''/p/a.cpp'', lineNumber = 2, usesBrackets = True\<rparr>
     [''/a'', ''/inc''] = ''/inc/c.h'' \<and>
   resolveIncludeDirective twoRootsFS
     \<lparr>includedFile = ''/inc/c.h'', includingFile = ''/p/a.cpp'', lineNumber = 2, usesBrackets = False\<rparr>
     [] = ''/inc/c.h'' \<and>
   resolveIncludeDirective twoRootsFS
     \<lparr>includedFile = ''d.h'', includingFile = ''/p/a.cpp'', lineNumber = 2, usesBrackets = False\<rparr>
     [''/a'', ''/inc''] = []"
proof -
  note defs = twoRootsFS_def exampleFS_def absoluteIn_def parentOf_def
  have 1: "resolveIncludeDirective twoRootsFS
     \<lparr>includedFile = ''b.h'', includingFile = ''/p/a.cpp'', lineNumber = 1, usesBrackets = True\<rparr>
     [''/inc''] = ''/p/b.h''"
    using resolveIncludeDirective_precedence [of twoRootsFS
      "\<lparr>includedFile = ''b.h'', includingFile = ''/p/a.cpp'', lineNumber = 1, usesBrackets = True\<rparr>"
      "[''/inc'']"]
    by (simp add: defs)
  have 2: "resolveIncludeDirective twoRootsFS
     \<lparr>includedFile = ''b.h'', includingFile = ''/p/a.cpp'', lineNumber = 1, usesBrackets = False\<rparr>
     [''/inc''] = ''/p/b.h''"
    using resolveIncludeDirective_precedence [of twoRootsFS
      "\<lparr>includedFile = ''b.h'', includingFile = ''/p/a.cpp'', lineNumber = 1, usesBrackets = False\<rparr>"
      "[''/inc'']"]
    by (simp add: defs)
  have 3: "resolveIncludeDirective twoRootsFS
     \<lparr>includedFile = ''c.h'', includingFile = ''/p/a.cpp'', lineNumber = 2, usesBrackets = True\<rparr>
     [''/a'', ''/inc''] = ''/inc/c.h''"
    using resolveIncludeDirective_precedence [of twoRootsFS
      "\<lparr>includedFile = ''c.h'', includingFile = ''/p/a.cpp'', lineNumber = 2, usesBrackets = True\<rparr>"
      "[''/a'', ''/inc'']", THEN conjunct2, THEN conjunct2, THEN conjunct1, THEN spec, of 1]
    by (simp add: defs)
  have 4: "resolveIncludeDirective twoRootsFS
     \<lparr>includedFile = ''/inc/c.h'', includingFile = ''/p/a.cpp'', lineNumber = 2, usesBrackets = False\<rparr>
     [] = ''/inc/c.h''"
    using resolveIncludeDirective_precedence [of twoRootsFS
      "\<lparr>includedFile = ''/inc/c.h'', includingFile = ''/p/a.cpp'', lineNumber = 2, usesBrackets = False\<rparr>"
      "[]"]
    by (simp add: defs)
  have 5: "resolveIncludeDirective twoRootsFS
     \<lparr>includedFile = ''d.h'', includingFile = ''/p/a.cpp'', lineNumber = 2, usesBrackets = False\<rparr>
     [''/a'', ''/inc''] = []"
    using resolveIncludeDirective_precedence [of twoRootsFS
      "\<lparr>includedFile = ''d.h'', includingFile = ''/p/a.cpp'', lineNumber = 2, usesBrackets = False\<rparr>"
      "[''/a'', ''/inc'']"]
    by (simp add: defs)
  from 1 2 3 4 5 show ?thesis by blast
qed

section \<open>Properties of the extractor\<close>

text \<open>
  Claim C8. For a path that does not exist, \<^verbatim>\<open>getIncludeDirectives\<close> returns the empty
  sequence; the model has no error to signal.
\<close>

theorem getIncludeDirectives_missing_file:
  "\<not> exists fs filePath \<Longrightarrow> getIncludeDirectives fs filePath = []"
  by (simp add: getIncludeDirectives_def)

theorem getIncludeDirectives_missing_file_witness:
  "\<not> exists projectFS ''/p/none.h'' \<and> getIncludeDirectives projectFS ''/p/none.h'' = []"
proof -
  have h: "\<not> exists projectFS ''/p/none.h''"
    by (simp add: projectFS_def exampleFS_def absoluteIn_def)
  from h getIncludeDirectives_missing_file [OF h] show ?thesis by blast
qed

lemma find_str_single_None: "find_str [a] s = None \<longleftrightarrow> a \<notin> set s"
  by (induction s) auto

lemma find_str_single_Some:
  "find_str [a] s = Some i \<longleftrightarrow> (\<exists>before after. s = before @ a # after \<and> a \<notin> set before \<and> i = length before)"
proof (induction s arbitrary: i)
  case Nil
  then show ?case by simp
next
  case (Cons c cs)
  show ?case
  proof (cases "a = c")
    case True
    have "(\<exists>before after. c # cs = before @ c # after \<and> c \<notin> set before \<and> i = length before) \<longleftrightarrow> i = 0"
    proof
      assume "\<exists>before after. c # cs = before @ c # after \<and> c \<notin> set before \<and> i = length before"
      then obtain before after where d: "c # cs = before @ c # after" "c \<notin> set before" "i = length before"
        by blast
      then have "before = []" by (cases before) auto
      then show "i = 0" using d by simp
    next
      assume "i = 0"
      then have "c # cs = [] @ c # cs \<and> c \<notin> set [] \<and> i = length ([] :: string)" by simp
      then show "\<exists>before after. c # cs = before @ c # after \<and> c \<notin> set before \<and> i = length before"
        by blast
    qed
    then show ?thesis using True by auto
  next
    case False
    have "(\<exists>before after. c # cs = before @ a # after \<and> a \<notin> set before \<and> i = length before) \<longleftrightarrow>
          (\<exists>i'. i = Suc i' \<and> (\<exists>before after. cs = before @ a # after \<and> a \<notin> set before \<and> i' = length before))"
    proof
      assume "\<exists>before after. c # cs = before @ a # after \<and> a \<notin> set before \<and> i = length before"
      then obtain before after where d: "c # cs = before @ a # after" "a \<notin> set before" "i = length before"
        by blast
      then obtain b' where b: "before = c # b'" using False by (cases before) auto
      then have "cs = b' @ a # after \<and> a \<notin> set b' \<and> i = Suc (length b')" using d by simp
      then show "\<exists>i'. i = Suc i' \<and> (\<exists>before after. cs = before @ a # after \<and> a \<notin> set before \<and> i' = length before)"
        by blast
    next
      assume "\<exists>i'. i = Suc i' \<and> (\<exists>before after. cs = before @ a # after \<and> a \<notin> set before \<and> i' = length before)"
      then obtain i' before after where d: "i = Suc i'" "cs = before @ a # after" "a \<notin> set before" "i' = length before"
        by blast
      then have "c # cs = (c # before) @ a # after \<and> a \<notin> set (c # before) \<and> i = length (c # before)"
        using False by simp
      then show "\<exists>before after. c # cs = before @ a # after \<and> a \<notin> set before \<and> i = length before"
        by blast
    qed
    then show ?thesis using False Cons.IH by auto
  qed
qed

lemma firstPair_substrBetween:
  "firstPair a b s c \<longleftrightarrow>
     (\<exists>i j. find_str [a] s = Some i \<and> find_str [b] (drop (i + 1) s) = Some j \<and>
            c = take j (drop (i + 1) s))"
proof
  assume "firstPair a b s c"
  then obtain before after where d: "s = before @ a # c @ b # after" "a \<notin> set before" "b \<notin> set c"
    unfolding firstPair_def by blast
  have 1: "find_str [a] s = Some (length before)"
    using d(1,2) find_str_single_Some by blast
  have 2: "drop (length before + 1) s = c @ b # after" using d(1) by simp
  have 3: "find_str [b] (c @ b # after) = Some (length c)"
    using d(3) find_str_single_Some by blast
  show "\<exists>i j. find_str [a] s = Some i \<and> find_str [b] (drop (i + 1) s) = Some j \<and>
            c = take j (drop (i + 1) s)"
    using 1 2 3 by (intro exI[of _ "length before"] exI[of _ "length c"]) simp
next
  assume "\<exists>i j. find_str [a] s = Some i \<and> find_str [b] (drop (i + 1) s) = Some j \<and>
            c = take j (drop (i + 1) s)"
  then obtain i j where f: "find_str [a] s = Some i" "find_str [b] (drop (i + 1) s) = Some j"
    "c = take j (drop (i + 1) s)" by blast
  from f(1) obtain before rest where d1: "s = before @ a # rest" "a \<notin> set before" "i = length before"
    using find_str_single_Some by blast
  have r: "drop (i + 1) s = rest" using d1 by simp
  from f(2) r obtain mid after where d2: "rest = mid @ b # after" "b \<notin> set mid" "j = length mid"
    using find_str_single_Some by metis
  have "c = mid" using f(3) r d2 by simp
  then show "firstPair a b s c" unfolding firstPair_def using d1 d2 by blast
qed

lemma substrBetween_single:
  "substrBetween s [a] [b] =
     (case find_str [a] s of None \<Rightarrow> []
      | Some i \<Rightarrow> (case find_str [b] (drop (i + 1) s) of None \<Rightarrow> [] | Some j \<Rightarrow> take j (drop (i + 1) s)))"
  by (simp add: substrBetween_def Let_def split: option.splits)

lemma substrBetween_firstPair:
  "c \<noteq> [] \<Longrightarrow> substrBetween s [a] [b] = c \<longleftrightarrow> firstPair a b s c"
  by (auto simp: firstPair_substrBetween substrBetween_single split: option.splits)

lemma substrBetween_empty_iff:
  "substrBetween s [a] [b] = [] \<longleftrightarrow> \<not> (\<exists>c. c \<noteq> [] \<and> firstPair a b s c)"
  using substrBetween_firstPair by metis

lemma isPrefix_hash: "isPrefix ''#'' x \<longleftrightarrow> (\<exists>r. x = CHR ''#'' # r)"
  by (cases x) (auto simp: isPrefix_def)

lemma lineDirective_Some:
  "lineDirective path i line = Some d \<longleftrightarrow>
     (\<exists>r. trim line = CHR ''#'' # r \<and> prefix ''include'' (trim r) \<and>
        includedFile d \<noteq> [] \<and>
        (firstPair (CHR ''<'') (CHR ''>'') (trim r) (includedFile d) \<and> usesBrackets d \<or>
         \<not> (\<exists>c. c \<noteq> [] \<and> firstPair (CHR ''<'') (CHR ''>'') (trim r) c) \<and>
           firstPair (CHR 0x22) (CHR 0x22) (trim r) (includedFile d) \<and> \<not> usesBrackets d) \<and>
        includingFile d = path \<and> lineNumber d = i + 1)"
proof (cases "\<exists>r. trim line = CHR ''#'' # r")
  case False
  then show ?thesis by (auto simp: lineDirective_def isPrefix_hash)
next
  case True
  then obtain r where r: "trim line = CHR ''#'' # r" by blast
  show ?thesis
  proof (cases "prefix ''include'' (trim r)")
    case False
    then show ?thesis using r by (auto simp: lineDirective_def isPrefix_hash isPrefix_def)
  next
    case inc: True
    let ?t = "trim r"
    let ?angle = "substrBetween ?t ''<'' ''>''"
    let ?quote = "substrBetween ?t [CHR 0x22] [CHR 0x22]"
    have unfold: "lineDirective path i line =
        (if (if ?angle = [] then ?quote else ?angle) \<noteq> []
         then Some \<lparr>includedFile = (if ?angle = [] then ?quote else ?angle),
                    includingFile = path, lineNumber = i + 1, usesBrackets = (?angle \<noteq> [])\<rparr>
         else None)"
      using r inc by (simp add: lineDirective_def isPrefix_hash isPrefix_def Let_def)
    obtain a b n u where d: "d = \<lparr>includedFile = a, includingFile = b, lineNumber = n, usesBrackets = u\<rparr>"
      by (cases d) auto
    show ?thesis
    proof (cases "?angle = []")
      case True
      then have noangle: "\<not> (\<exists>c. c \<noteq> [] \<and> firstPair (CHR ''<'') (CHR ''>'') ?t c)"
        using substrBetween_empty_iff by blast
      have q: "a \<noteq> [] \<Longrightarrow> ?quote = a \<longleftrightarrow> firstPair (CHR 0x22) (CHR 0x22) ?t a" for a
        by (rule substrBetween_firstPair)
      show ?thesis using True noangle q r inc unfolding unfold d by auto
    next
      case False
      then have angle: "firstPair (CHR ''<'') (CHR ''>'') ?t ?angle"
        using substrBetween_firstPair by blast
      have q: "a \<noteq> [] \<Longrightarrow> ?angle = a \<longleftrightarrow> firstPair (CHR ''<'') (CHR ''>'') ?t a" for a
        by (rule substrBetween_firstPair)
      show ?thesis using False angle q r inc unfolding unfold d by auto
    qed
  qed
qed

lemma scanLines_append:
  "scanLines path ls i acc = acc @ scanLines path ls i []"
proof (induction ls arbitrary: i acc)
  case Nil
  then show ?case by simp
next
  case (Cons l ls)
  show ?case
  proof (cases "lineDirective path i l")
    case None
    have "scanLines path (l # ls) i acc = acc @ scanLines path ls (i + 1) []"
      using None Cons.IH [of "i + 1" acc] by simp
    moreover have "scanLines path (l # ls) i [] = scanLines path ls (i + 1) []"
      using None by simp
    ultimately show ?thesis by simp
  next
    case (Some d)
    have "scanLines path (l # ls) i acc = (acc @ [d]) @ scanLines path ls (i + 1) []"
      using Some Cons.IH [of "i + 1" "acc @ [d]"] by simp
    moreover have "scanLines path (l # ls) i [] = [d] @ scanLines path ls (i + 1) []"
      using Some Cons.IH [of "i + 1" "[d]"] by simp
    ultimately show ?thesis by simp
  qed
qed

lemma scanLines_Cons:
  "scanLines path (l # ls) i [] =
     (case lineDirective path i l of None \<Rightarrow> [] | Some d \<Rightarrow> [d]) @ scanLines path ls (i + 1) []"
  using scanLines_append [of path ls "i + 1" "[d]" for d]
  by (simp split: option.splits)

lemma set_scanLines:
  "d \<in> set (scanLines path ls i []) \<longleftrightarrow> (\<exists>k<length ls. lineDirective path (i + k) (ls ! k) = Some d)"
proof (induction ls arbitrary: i)
  case Nil
  then show ?case by simp
next
  case (Cons l ls)
  have "(\<exists>k<length (l # ls). lineDirective path (i + k) ((l # ls) ! k) = Some d) \<longleftrightarrow>
        lineDirective path i l = Some d \<or> (\<exists>k<length ls. lineDirective path (i + 1 + k) (ls ! k) = Some d)"
    (is "?L \<longleftrightarrow> ?R")
  proof
    assume ?L
    then obtain k where k: "k < length (l # ls)" "lineDirective path (i + k) ((l # ls) ! k) = Some d"
      by blast
    show ?R
    proof (cases k)
      case 0
      then show ?thesis using k by simp
    next
      case (Suc k')
      then have "k' < length ls \<and> lineDirective path (i + 1 + k') (ls ! k') = Some d" using k by simp
      then show ?thesis by blast
    qed
  next
    assume ?R
    then show ?L
    proof
      assume "lineDirective path i l = Some d"
      then have "0 < length (l # ls) \<and> lineDirective path (i + 0) ((l # ls) ! 0) = Some d" by simp
      then show ?L by blast
    next
      assume "\<exists>k<length ls. lineDirective path (i + 1 + k) (ls ! k) = Some d"
      then obtain k where "k < length ls" "lineDirective path (i + 1 + k) (ls ! k) = Some d" by blast
      then have "Suc k < length (l # ls) \<and> lineDirective path (i + Suc k) ((l # ls) ! Suc k) = Some d"
        by simp
      then show ?L by blast
    qed
  qed
  moreover have "d \<in> set (scanLines path (l # ls) i []) \<longleftrightarrow>
      lineDirective path i l = Some d \<or> d \<in> set (scanLines path ls (i + 1) [])"
    unfolding scanLines_Cons by (cases "lineDirective path i l") auto
  ultimately show ?case using Cons.IH [of "i + 1"] by simp
qed

lemma lineDirective_lineNumber: "lineDirective path i l = Some d \<Longrightarrow> lineNumber d = i + 1"
  by (auto simp: lineDirective_def Let_def split: if_splits)

lemma lineNumbers_scanLines:
  "sorted_wrt (<) (map lineNumber (scanLines path ls i [])) \<and>
   (\<forall>d\<in>set (scanLines path ls i []). i < lineNumber d)"
proof (induction ls arbitrary: i)
  case Nil
  then show ?case by simp
next
  case (Cons l ls)
  have IH: "sorted_wrt (<) (map lineNumber (scanLines path ls (i + 1) []))"
    "\<And>d. d \<in> set (scanLines path ls (i + 1) []) \<Longrightarrow> i + 1 < lineNumber d"
    using Cons.IH [of "i + 1"] by auto
  have later: "i < lineNumber d" if "d \<in> set (scanLines path ls (i + 1) [])" for d
    using IH(2) [OF that] by simp
  show ?case
  proof (cases "lineDirective path i l")
    case None
    then have "scanLines path (l # ls) i [] = scanLines path ls (i + 1) []"
      unfolding scanLines_Cons by simp
    then show ?thesis using IH(1) later by simp
  next
    case (Some d)
    then have n: "lineNumber d = i + 1" by (rule lineDirective_lineNumber)
    have "scanLines path (l # ls) i [] = d # scanLines path ls (i + 1) []"
      unfolding scanLines_Cons using Some by simp
    then show ?thesis using IH n later by auto
  qed
qed

text \<open>
  Claim C7. For an existing file, a directive is among the directives of
  \<^verbatim>\<open>getIncludeDirectives\<close> if and only if some line \<open>i\<close> (counted from 0), trimmed, is a
  \<^verbatim>\<open>#\<close> followed by a remainder that, trimmed again, starts with \<^verbatim>\<open>include\<close>, and the
  included file of the directive is the non-empty content of the first pair of angle
  brackets of that remainder (the directive then uses brackets) or, when there is no such
  pair with a non-empty content, the non-empty content of its first pair of double quotes
  (it then does not); the directive has the path of the text as its including file and
  \<open>i + 1\<close> as its line number. The directives come in the order of their lines, no two
  from one line.
\<close>

theorem getIncludeDirectives_lines:
  assumes "exists fs filePath"
  shows
  "(d \<in> set (getIncludeDirectives fs filePath) \<longleftrightarrow>
     (\<exists>i<length (getAllLines (createFromFile fs filePath)).
      \<exists>r. trim (getAllLines (createFromFile fs filePath) ! i) = CHR ''#'' # r \<and>
        prefix ''include'' (trim r) \<and>
        includedFile d \<noteq> [] \<and>
        (firstPair (CHR ''<'') (CHR ''>'') (trim r) (includedFile d) \<and> usesBrackets d \<or>
         \<not> (\<exists>c. c \<noteq> [] \<and> firstPair (CHR ''<'') (CHR ''>'') (trim r) c) \<and>
           firstPair (CHR 0x22) (CHR 0x22) (trim r) (includedFile d) \<and> \<not> usesBrackets d) \<and>
        includingFile d = getFilePath (createFromFile fs filePath) \<and>
        lineNumber d = i + 1)) \<and>
   sorted_wrt (<) (map lineNumber (getIncludeDirectives fs filePath))"
  using assms lineNumbers_scanLines [of "getFilePath (createFromFile fs filePath)" "getAllLines (createFromFile fs filePath)" 0]
  by (simp add: getIncludeDirectives_def getIncludeDirectivesText_def set_scanLines lineDirective_Some)

theorem getIncludeDirectives_lines_witness:
  "exists projectFS ''/p/b.h'' \<and>
   \<lparr>includedFile = ''vector'', includingFile = ''/p/b.h'', lineNumber = 2, usesBrackets = True\<rparr>
     \<in> set (getIncludeDirectives projectFS ''/p/b.h'') \<and>
   (\<exists>i<length (getAllLines (createFromFile projectFS ''/p/b.h'')).
      \<exists>r. trim (getAllLines (createFromFile projectFS ''/p/b.h'') ! i) = CHR ''#'' # r \<and>
        prefix ''include'' (trim r) \<and>
        firstPair (CHR ''<'') (CHR ''>'') (trim r) ''vector'' \<and> i + 1 = 2) \<and>
   sorted_wrt (<) (map lineNumber (getIncludeDirectives projectFS ''/p/b.h''))"
proof -
  have h: "exists projectFS ''/p/b.h''"
    by (simp add: projectFS_def exampleFS_def absoluteIn_def)
  have m: "\<lparr>includedFile = ''vector'', includingFile = ''/p/b.h'', lineNumber = 2, usesBrackets = True\<rparr>
     \<in> set (getIncludeDirectives projectFS ''/p/b.h'')"
    by code_simp
  from h m getIncludeDirectives_lines [OF h,
      of "\<lparr>includedFile = ''vector'', includingFile = ''/p/b.h'', lineNumber = 2, usesBrackets = True\<rparr>"]
  show ?thesis by auto
qed

section \<open>Properties of the unresolved directive discovery\<close>

lemma splitToQuantiles_Nil: "splitToQuantiles [] K = [[]]"
  by (simp add: splitToQuantiles_def)

lemma toSet_Nil: "toSet [] = []" by (simp add: toSet_def)

text \<open>
  Claim C10. For the empty set of source files \<^verbatim>\<open>splitToQuantiles\<close> returns one shard,
  which is empty, whatever the desired count; and \<^verbatim>\<open>getUnresolvedIncludeDirectives\<close>
  returns the empty vector after calling \<^verbatim>\<open>progress\<close> with 0 and then with 1 (its one
  call of \<^verbatim>\<open>doGetUnresolvedIncludeDirectives\<close> does not enter the loop).
\<close>

theorem empty_source_set:
  "splitToQuantiles [] desiredQuantileCount = [[]] \<and>
   getUnresolvedIncludeDirectives fs [] indexedPaths headerSearchDirectories desiredQuantileCount =
     Some ([], [0, 1], [[]])"
  by (simp add: getUnresolvedIncludeDirectives_def splitToQuantiles_Nil toSet_Nil
      doGetUnresolvedIncludeDirectives_def while_option_unfold)

lemma ordered_insort_insert_key:
  assumes "orderedByIncludedFile ds"
  shows "orderedByIncludedFile (insort_insert_key includedFile d ds)"
proof (cases "includedFile d \<in> includedFile ` set ds")
  case True
  then show ?thesis using assms by (simp add: insort_insert_key_triv)
next
  case False
  have eq: "insort_insert_key includedFile d ds = insort_key includedFile d ds"
    using False by (rule insort_insert_insort_key)
  have "sorted (map includedFile (insort_key includedFile d ds))"
    using assms by (simp add: orderedByIncludedFile_def sorted_insort_key)
  moreover have "distinct (insort_key includedFile d ds)"
    using assms by (simp add: orderedByIncludedFile_def distinct_insort distinct_map) (metis distinct_map False image_iff)
  moreover have "inj_on includedFile (set (insort_key includedFile d ds))"
    using assms False by (auto simp: orderedByIncludedFile_def distinct_map set_insort_key)
  ultimately show ?thesis by (simp add: eq orderedByIncludedFile_def distinct_map)
qed

lemma ordered_fold_insort_insert_key:
  "orderedByIncludedFile ds \<Longrightarrow>
   orderedByIncludedFile (fold (insort_insert_key includedFile) new ds)"
  by (induction new arbitrary: ds) (simp_all add: ordered_insort_insert_key)

lemma set_fold_insort_insert_key:
  "includedFile ` set (fold (insort_insert_key includedFile) new ds) =
   includedFile ` set ds \<union> includedFile ` set new"
  by (induction new arbitrary: ds) (auto simp: set_insort_insert insort_insert_key_def set_insort_key)

lemma unresolvedShards_ordered:
  "unresolvedShards fs idx hdrs quantiles i n r = Some r' \<Longrightarrow>
   orderedByIncludedFile (unresolvedSet r) \<Longrightarrow> orderedByIncludedFile (unresolvedSet r')"
proof (induction quantiles arbitrary: i r)
  case Nil
  then show ?case by simp
next
  case (Cons q rest)
  from Cons.prems(1) obtain directives processed turns where
    call: "doGetUnresolvedIncludeDirectives fs (toSet q) (processedAcrossShards r) idx hdrs =
             Some (directives, processed, turns)"
    and rest: "unresolvedShards fs idx hdrs rest (i + 1) n
            \<lparr>processedAcrossShards = processed,
             unresolvedSet = fold (insort_insert_key includedFile) directives (unresolvedSet r),
             progressed = progressed r @ [real i / real n],
             shardLogs = shardLogs r @ [turns]\<rparr> = Some r'"
    by (auto split: option.splits)
  show ?case
    by (rule Cons.IH [OF rest]) (simp add: ordered_fold_insort_insert_key Cons.prems(2))
qed

text \<open>
  Claim C9. The vector \<^verbatim>\<open>getUnresolvedIncludeDirectives\<close> returns is in increasing order
  of the included file and holds no included file twice: of all the unresolved directives
  with one written path, one is returned.
\<close>

theorem unresolved_result_ordered:
  assumes "getUnresolvedIncludeDirectives fs sourceFilePaths indexedPaths hdrs K =
             Some (ret, progress, turns)"
  shows "sorted (map includedFile ret) \<and> distinct (map includedFile ret)"
proof -
  from assms obtain r where
    run: "unresolvedShards fs indexedPaths hdrs (splitToQuantiles sourceFilePaths K) 0
            (length (splitToQuantiles sourceFilePaths K))
            \<lparr>processedAcrossShards = {}, unresolvedSet = [], progressed = [],
             shardLogs = []\<rparr> = Some r"
    and ret: "ret = unresolvedSet r"
    by (auto simp: getUnresolvedIncludeDirectives_def Let_def split: option.splits)
  have "orderedByIncludedFile (unresolvedSet r)"
    by (rule unresolvedShards_ordered [OF run]) (simp add: orderedByIncludedFile_def)
  then show ?thesis by (simp add: ret orderedByIncludedFile_def)
qed

lemma run_project:
  "getUnresolvedIncludeDirectives projectFS [''/p/a.cpp'', ''/p/b.h''] [''/p''] [] 2 =
     Some ([\<lparr>includedFile = ''missing.h'', includingFile = ''/p/b.h'', lineNumber = 1,
               usesBrackets = True\<rparr>,
            \<lparr>includedFile = ''vector'', includingFile = ''/p/a.cpp'', lineNumber = 1,
               usesBrackets = True\<rparr>],
           [0, 1 / 2, 1], [[[''/p/a.cpp''], [''/p/b.h'']], [[''/p/b.h'']]])"
  by code_simp

theorem unresolved_result_ordered_witness:
  "getUnresolvedIncludeDirectives projectFS [''/p/a.cpp'', ''/p/b.h''] [''/p''] [] 2 =
     Some ([\<lparr>includedFile = ''missing.h'', includingFile = ''/p/b.h'', lineNumber = 1,
               usesBrackets = True\<rparr>,
            \<lparr>includedFile = ''vector'', includingFile = ''/p/a.cpp'', lineNumber = 1,
               usesBrackets = True\<rparr>],
           [0, 1 / 2, 1], [[[''/p/a.cpp''], [''/p/b.h'']], [[''/p/b.h'']]]) \<and>
   sorted [''missing.h'', ''vector''] \<and> distinct [''missing.h'', ''vector'']"
  using run_project unresolved_result_ordered [OF run_project] by simp

lemma processDirective_fst:
  "fst (processDirective fs P idx hdrs d acc) =
     fst acc @ (if resolvedCanonical fs hdrs d = [] then [d] else [])"
  by (cases acc) (simp add: processDirective_def Let_def)

lemma processDirective_snd:
  "snd (processDirective fs P idx hdrs d acc) =
     (if resolvedCanonical fs hdrs d \<noteq> [] \<and> resolvedCanonical fs hdrs d \<notin> P \<and>
         withinIndexedPaths fs idx (resolvedCanonical fs hdrs d)
      then insort_insert (resolvedCanonical fs hdrs d) (snd acc) else snd acc)"
  by (cases acc) (simp add: processDirective_def Let_def)

lemma fold_processDirective_fst:
  "fst (fold (processDirective fs P idx hdrs) ds acc) =
     fst acc @ filter (\<lambda>d. resolvedCanonical fs hdrs d = []) ds"
  by (induction ds arbitrary: acc) (simp_all add: processDirective_fst)

lemma fold_processDirective_snd_set:
  "set (snd (fold (processDirective fs P idx hdrs) ds acc)) =
     set (snd acc) \<union>
     {q. \<exists>d\<in>set ds. q = resolvedCanonical fs hdrs d \<and> q \<noteq> [] \<and> q \<notin> P \<and>
           withinIndexedPaths fs idx q}"
proof (induction ds arbitrary: acc)
  case Nil
  then show ?case by simp
next
  case (Cons d ds)
  show ?case
    unfolding fold_simps Cons.IH processDirective_snd
    by (auto simp: set_insort_insert)
qed

lemma strict_sorted_insort_insert:
  "sorted_wrt (<) xs \<Longrightarrow> sorted_wrt (<) (insort_insert (x :: 'a :: linorder) xs)"
  by (simp add: strict_sorted_iff sorted_insort_insert distinct_insort_insert)

lemma fold_processDirective_snd_sorted:
  "sorted_wrt (<) (snd acc) \<Longrightarrow>
   sorted_wrt (<) (snd (fold (processDirective fs P idx hdrs) ds acc))"
proof (induction ds arbitrary: acc)
  case Nil
  then show ?case by simp
next
  case (Cons d ds)
  have "sorted_wrt (<) (snd (processDirective fs P idx hdrs d acc))"
    using Cons.prems by (simp add: processDirective_snd strict_sorted_insort_insert)
  then show ?case using Cons.IH by simp
qed

lemma fold_processFile_fst:
  "fst (fold (processFile fs P idx hdrs) fl acc) =
     fst acc @ concat (map (unresolvedIn fs hdrs) fl)"
  by (induction fl arbitrary: acc)
     (simp_all add: processFile_def fold_processDirective_fst unresolvedIn_def)

lemma fold_processFile_snd_set:
  "set (snd (fold (processFile fs P idx hdrs) fl acc)) =
     set (snd acc) \<union>
     {q. \<exists>f\<in>set fl. \<exists>d\<in>set (getIncludeDirectives fs f).
           q = resolvedCanonical fs hdrs d \<and> q \<noteq> [] \<and> q \<notin> P \<and> withinIndexedPaths fs idx q}"
proof (induction fl arbitrary: acc)
  case Nil
  then show ?case by simp
next
  case (Cons f fl)
  show ?case
    unfolding fold_simps Cons.IH
    by (auto simp: processFile_def fold_processDirective_snd_set)
qed

lemma fold_processFile_snd_sorted:
  "sorted_wrt (<) (snd acc) \<Longrightarrow> sorted_wrt (<) (snd (fold (processFile fs P idx hdrs) fl acc))"
proof (induction fl arbitrary: acc)
  case Nil
  then show ?case by simp
next
  case (Cons f fl)
  have "sorted_wrt (<) (snd (processFile fs P idx hdrs f acc))"
    using Cons.prems by (simp add: processFile_def fold_processDirective_snd_sorted)
  then show ?case using Cons.IH by simp
qed

lemma walkStep_processed:
  "processedFilePaths (walkStep fs idx hdrs s) =
     processedFilePaths s \<union> processedKey fs ` set (filePathsToProcess s)"
  by (simp add: walkStep_def Let_def split: prod.splits)

lemma walkStep_extracted:
  "extracted (walkStep fs idx hdrs s) = extracted s @ [filePathsToProcess s]"
  by (simp add: walkStep_def Let_def split: prod.splits)

lemma walkStep_unresolved:
  "unresolvedIncludeDirectives (walkStep fs idx hdrs s) =
     unresolvedIncludeDirectives s @ concat (map (unresolvedIn fs hdrs) (filePathsToProcess s))"
proof -
  let ?P = "processedFilePaths s \<union> processedKey fs ` set (filePathsToProcess s)"
  let ?r = "fold (processFile fs ?P idx hdrs) (filePathsToProcess s) (unresolvedIncludeDirectives s, [])"
  have "unresolvedIncludeDirectives (walkStep fs idx hdrs s) = fst ?r"
    by (simp add: walkStep_def Let_def split: prod.splits)
  then show ?thesis by (simp add: fold_processFile_fst)
qed

lemma walkStep_frontier:
  "set (filePathsToProcess (walkStep fs idx hdrs s)) =
     {q. \<exists>f\<in>set (filePathsToProcess s). \<exists>d\<in>set (getIncludeDirectives fs f).
           q = resolvedCanonical fs hdrs d \<and> q \<noteq> [] \<and>
           q \<notin> processedFilePaths (walkStep fs idx hdrs s) \<and> withinIndexedPaths fs idx q}"
proof -
  let ?P = "processedFilePaths s \<union> processedKey fs ` set (filePathsToProcess s)"
  let ?r = "fold (processFile fs ?P idx hdrs) (filePathsToProcess s) (unresolvedIncludeDirectives s, [])"
  have "filePathsToProcess (walkStep fs idx hdrs s) = snd ?r"
    by (simp add: walkStep_def Let_def split: prod.splits)
  then show ?thesis by (simp add: fold_processFile_snd_set walkStep_processed)
qed

lemma walkStep_frontier_sorted:
  "sorted_wrt (<) (filePathsToProcess (walkStep fs idx hdrs s))"
proof -
  let ?P = "processedFilePaths s \<union> processedKey fs ` set (filePathsToProcess s)"
  let ?r = "fold (processFile fs ?P idx hdrs) (filePathsToProcess s) (unresolvedIncludeDirectives s, [])"
  have "filePathsToProcess (walkStep fs idx hdrs s) = snd ?r"
    by (simp add: walkStep_def Let_def split: prod.splits)
  then show ?thesis by (simp add: fold_processFile_snd_sorted)
qed

lemma walkLog_snoc:
  assumes "walkLog fs idx hdrs P0 seeds (L @ [F])"
    and "reachedTurn fs idx hdrs (P0 \<union> processedKey fs ` set (concat (L @ [F]))) F F'"
  shows "walkLog fs idx hdrs P0 seeds ((L @ [F]) @ [F'])"
  unfolding walkLog_def
proof (intro conjI allI impI)
  have "hd (L @ [F]) = seeds" using assms(1) by (simp add: walkLog_def)
  then show "hd ((L @ [F]) @ [F']) = seeds" by (cases L) simp_all
next
  fix t assume t: "0 < t \<and> t < length ((L @ [F]) @ [F'])"
  show "reachedTurn fs idx hdrs
          (P0 \<union> processedKey fs ` set (concat (take t ((L @ [F]) @ [F']))))
          (((L @ [F]) @ [F']) ! (t - 1)) (((L @ [F]) @ [F']) ! t)"
  proof (cases "t < length (L @ [F])")
    case True
    then have "t - 1 < length (L @ [F])" by arith
    then have "((L @ [F]) @ [F']) ! (t - 1) = (L @ [F]) ! (t - 1)"
      by (rule nth_append_left)
    moreover have "((L @ [F]) @ [F']) ! t = (L @ [F]) ! t"
      using True by (rule nth_append_left)
    moreover have "take t ((L @ [F]) @ [F']) = take t (L @ [F])"
      using True by simp
    ultimately have "((L @ [F]) @ [F']) ! t = (L @ [F]) ! t"
      and "((L @ [F]) @ [F']) ! (t - 1) = (L @ [F]) ! (t - 1)"
      and "take t ((L @ [F]) @ [F']) = take t (L @ [F])"
      by simp_all
    then show ?thesis using assms(1) t True unfolding walkLog_def by metis
  next
    case False
    then have tl: "t = length (L @ [F])" using t by simp
    then have "t - 1 = length L" by simp
    then have "((L @ [F]) @ [F']) ! (t - 1) = F" by (simp add: nth_append)
    moreover have "((L @ [F]) @ [F']) ! t = F'" using tl by (simp add: nth_append)
    moreover have "take t ((L @ [F]) @ [F']) = L @ [F]" using tl by simp
    ultimately have "((L @ [F]) @ [F']) ! t = F'" and "((L @ [F]) @ [F']) ! (t - 1) = F"
      and "take t ((L @ [F]) @ [F']) = L @ [F]"
      by simp_all
    then show ?thesis using assms(2) by simp
  qed
qed

lemma walkLog_butlast:
  assumes "walkLog fs idx hdrs P0 seeds (L @ [F])"
  shows "walkLog fs idx hdrs P0 seeds L"
  unfolding walkLog_def
proof (intro conjI allI impI)
  assume "L \<noteq> []"
  moreover have "hd (L @ [F]) = seeds" using assms by (simp add: walkLog_def)
  ultimately show "hd L = seeds" by (cases L) simp_all
next
  fix t assume t: "0 < t \<and> t < length L"
  then have "t - 1 < length L" by arith
  then have "(L @ [F]) ! (t - 1) = L ! (t - 1)" by (rule nth_append_left)
  moreover have "(L @ [F]) ! t = L ! t" using t by (simp add: nth_append)
  moreover have "take t (L @ [F]) = take t L" and "t < length (L @ [F])" using t by simp_all
  ultimately have "(L @ [F]) ! t = L ! t" and "(L @ [F]) ! (t - 1) = L ! (t - 1)"
    and "take t (L @ [F]) = take t L" and "t < length (L @ [F])"
    by simp_all
  then show "reachedTurn fs idx hdrs (P0 \<union> processedKey fs ` set (concat (take t L)))
      (L ! (t - 1)) (L ! t)"
    using assms t unfolding walkLog_def by metis
qed

lemma walkInv_init:
  "walkInv fs idx hdrs P0 seeds
     \<lparr>filePathsToProcess = seeds, processedFilePaths = P0,
      unresolvedIncludeDirectives = [], extracted = []\<rparr>"
  by (simp add: walkInv_def walkLog_def)

lemma walkInv_step:
  assumes "walkInv fs idx hdrs P0 seeds s"
  shows "walkInv fs idx hdrs P0 seeds (walkStep fs idx hdrs s)"
proof -
  let ?s' = "walkStep fs idx hdrs s"
  let ?L = "extracted s" and ?F = "filePathsToProcess s"
  have P: "processedFilePaths ?s' = P0 \<union> processedKey fs ` set (concat (?L @ [?F]))"
    using assms by (auto simp: walkInv_def walkStep_processed)
  have new: "reachedTurn fs idx hdrs (P0 \<union> processedKey fs ` set (concat (?L @ [?F]))) ?F
      (filePathsToProcess ?s')"
    unfolding reachedTurn_def walkStep_frontier P [symmetric]
    using walkStep_frontier_sorted [of fs idx hdrs s] by blast
  have log: "walkLog fs idx hdrs P0 seeds ((?L @ [?F]) @ [filePathsToProcess ?s'])"
    using assms new by (intro walkLog_snoc) (simp_all add: walkInv_def)
  have u: "unresolvedIncludeDirectives ?s' =
      concat (map (unresolvedIn fs hdrs) (concat (?L @ [?F])))"
    using assms by (simp add: walkInv_def walkStep_unresolved)
  show ?thesis
    unfolding walkInv_def walkStep_extracted using P log u by simp
qed

lemma doGetUnresolvedIncludeDirectives_log:
  assumes "doGetUnresolvedIncludeDirectives fs seeds P0 idx hdrs = Some (u, P, L)"
  shows "P = P0 \<union> processedKey fs ` set (concat L) \<and>
         walkLog fs idx hdrs P0 seeds L \<and>
         (seeds \<noteq> [] \<longrightarrow> L \<noteq> []) \<and>
         u = concat (map (unresolvedIn fs hdrs) (concat L))"
proof -
  let ?init = "\<lparr>filePathsToProcess = seeds, processedFilePaths = P0,
      unresolvedIncludeDirectives = [], extracted = []\<rparr>"
  from assms obtain s where
    w: "while_option (\<lambda>s. filePathsToProcess s \<noteq> []) (walkStep fs idx hdrs) ?init = Some s"
    and s: "u = unresolvedIncludeDirectives s" "P = processedFilePaths s" "L = extracted s"
    by (auto simp: doGetUnresolvedIncludeDirectives_def)
  have inv: "walkInv fs idx hdrs P0 seeds s"
    by (rule while_option_rule [where P = "walkInv fs idx hdrs P0 seeds", OF _ w])
       (simp_all add: walkInv_step walkInv_init)
  have stop: "filePathsToProcess s = []"
    using while_option_stop [OF w] by simp
  have log: "walkLog fs idx hdrs P0 seeds (L @ [[]])"
    using inv stop s by (simp add: walkInv_def)
  have "seeds \<noteq> [] \<longrightarrow> L \<noteq> []"
    using log by (auto simp: walkLog_def)
  then show ?thesis
    using inv s walkLog_butlast [OF log] by (simp add: walkInv_def)
qed

lemma set_fold_insort_insert_key_subset:
  "set (fold (insort_insert_key f) new ds) \<subseteq> set ds \<union> set new"
proof (induction new arbitrary: ds)
  case Nil
  then show ?case by simp
next
  case (Cons a new)
  have "set (insort_insert_key f a ds) \<subseteq> insert a (set ds)"
    by (auto simp: insort_insert_key_def set_insort_key)
  then show ?case using Cons.IH [of "insort_insert_key f a ds"] by auto
qed

lemma unresolvedShards_log:
  assumes "unresolvedShards fs idx hdrs qs i n r = Some r'"
    and "processedAcrossShards r = processedKey fs ` set (concat (concat (shardLogs r)))"
  shows "\<exists>new. shardLogs r' = shardLogs r @ new \<and> length new = length qs \<and>
      (\<forall>k<length qs.
         walkLog fs idx hdrs (processedKey fs ` set (concat (concat (shardLogs r @ take k new))))
           (toSet (qs ! k)) (new ! k) \<and>
         (toSet (qs ! k) \<noteq> [] \<longrightarrow> new ! k \<noteq> [])) \<and>
      set (unresolvedSet r') \<subseteq>
        set (unresolvedSet r) \<union> set (concat (map (unresolvedIn fs hdrs) (concat (concat new)))) \<and>
      includedFile ` set (unresolvedSet r') =
        includedFile ` set (unresolvedSet r) \<union>
        includedFile ` set (concat (map (unresolvedIn fs hdrs) (concat (concat new))))"
  using assms
proof (induction qs arbitrary: i r)
  case Nil
  then have "r' = r" by simp
  then show ?case by simp
next
  case (Cons q rest)
  let ?K = "processedKey fs"
  from Cons.prems(1) obtain u P L where
    call: "doGetUnresolvedIncludeDirectives fs (toSet q) (processedAcrossShards r) idx hdrs =
             Some (u, P, L)"
    and run: "unresolvedShards fs idx hdrs rest (i + 1) n
            \<lparr>processedAcrossShards = P,
             unresolvedSet = fold (insort_insert_key includedFile) u (unresolvedSet r),
             progressed = progressed r @ [real i / real n],
             shardLogs = shardLogs r @ [L]\<rparr> = Some r'"
    by (auto split: option.splits)
  let ?r1 = "\<lparr>processedAcrossShards = P,
             unresolvedSet = fold (insort_insert_key includedFile) u (unresolvedSet r),
             progressed = progressed r @ [real i / real n],
             shardLogs = shardLogs r @ [L]\<rparr>"
  note walk = doGetUnresolvedIncludeDirectives_log [OF call]
  have P: "P = ?K ` set (concat (concat (shardLogs r @ [L])))"
    using walk Cons.prems(2) by auto
  have wl: "walkLog fs idx hdrs (?K ` set (concat (concat (shardLogs r)))) (toSet q) L"
    using walk Cons.prems(2) by simp
  have ne: "toSet q \<noteq> [] \<longrightarrow> L \<noteq> []" using walk by simp
  have u: "u = concat (map (unresolvedIn fs hdrs) (concat L))" using walk by simp
  have pre: "processedAcrossShards ?r1 = ?K ` set (concat (concat (shardLogs ?r1)))"
    using P by simp
  from Cons.IH [OF run pre] obtain new' where
    IH: "shardLogs r' = shardLogs ?r1 @ new'" "length new' = length rest"
      "\<forall>k<length rest.
         walkLog fs idx hdrs (?K ` set (concat (concat (shardLogs ?r1 @ take k new'))))
           (toSet (rest ! k)) (new' ! k) \<and>
         (toSet (rest ! k) \<noteq> [] \<longrightarrow> new' ! k \<noteq> [])"
      "set (unresolvedSet r') \<subseteq>
        set (unresolvedSet ?r1) \<union> set (concat (map (unresolvedIn fs hdrs) (concat (concat new'))))"
      "includedFile ` set (unresolvedSet r') =
        includedFile ` set (unresolvedSet ?r1) \<union>
        includedFile ` set (concat (map (unresolvedIn fs hdrs) (concat (concat new'))))"
    by blast
  let ?new = "L # new'"
  have 1: "shardLogs r' = shardLogs r @ ?new" using IH(1) by simp
  have 2: "length ?new = length (q # rest)" using IH(2) by simp
  have 3: "walkLog fs idx hdrs (?K ` set (concat (concat (shardLogs r @ take k ?new))))
           (toSet ((q # rest) ! k)) (?new ! k) \<and>
         (toSet ((q # rest) ! k) \<noteq> [] \<longrightarrow> ?new ! k \<noteq> [])"
    if "k < length (q # rest)" for k
  proof (cases k)
    case 0
    then show ?thesis using wl ne by simp
  next
    case (Suc k')
    then have "k' < length rest" using that by simp
    then show ?thesis using IH(3) Suc by simp
  qed
  have 4: "set (unresolvedSet r') \<subseteq>
        set (unresolvedSet r) \<union> set (concat (map (unresolvedIn fs hdrs) (concat (concat ?new))))"
    using IH(4) set_fold_insort_insert_key_subset [of includedFile u "unresolvedSet r"] u
    by auto
  have 5: "includedFile ` set (unresolvedSet r') =
        includedFile ` set (unresolvedSet r) \<union>
        includedFile ` set (concat (map (unresolvedIn fs hdrs) (concat (concat ?new))))"
    using IH(5) u by (simp add: set_fold_insort_insert_key image_Un Un_assoc)
  from 1 2 3 4 5 show ?case by blast
qed

lemma getUnresolvedIncludeDirectives_log:
  assumes "getUnresolvedIncludeDirectives fs src idx hdrs K = Some (ret, progress, logs)"
  shows "length logs = length (splitToQuantiles src K) \<and>
      (\<forall>k<length logs.
         walkLog fs idx hdrs (processedKey fs ` set (concat (concat (take k logs))))
           (toSet (splitToQuantiles src K ! k)) (logs ! k) \<and>
         (toSet (splitToQuantiles src K ! k) \<noteq> [] \<longrightarrow> logs ! k \<noteq> [])) \<and>
      set ret \<subseteq> set (concat (map (unresolvedIn fs hdrs) (concat (concat logs)))) \<and>
      includedFile ` set ret =
        includedFile ` set (concat (map (unresolvedIn fs hdrs) (concat (concat logs))))"
proof -
  let ?init = "\<lparr>processedAcrossShards = {}, unresolvedSet = [], progressed = [],
             shardLogs = []\<rparr>"
  from assms obtain r where
    run: "unresolvedShards fs idx hdrs (splitToQuantiles src K) 0
            (length (splitToQuantiles src K)) ?init = Some r"
    and r: "ret = unresolvedSet r" "logs = shardLogs r"
    by (auto simp: getUnresolvedIncludeDirectives_def Let_def split: option.splits)
  have pre: "processedAcrossShards ?init =
      processedKey fs ` set (concat (concat (shardLogs ?init)))" by simp
  from unresolvedShards_log [OF run pre] show ?thesis using r by auto
qed

text \<open>
  Claim C3, as amended. One set of processed paths serves the whole call and is never
  reset: it holds the keys of all files of the earlier shards and turns. A file that is
  reached through an include, in any shard, is handed to \<^verbatim>\<open>getIncludeDirectives\<close> only if
  its path is not the key of any file the call has processed before, in an earlier shard
  or an earlier turn. The source files of a shard are processed whatever the set holds:
  they are the first turn of the shard.
\<close>

theorem processed_paths_shared_across_shards:
  assumes "getUnresolvedIncludeDirectives fs sourceFilePaths indexedPaths hdrs K =
             Some (ret, progress, logs)"
  shows
  "length logs = length (splitToQuantiles sourceFilePaths K) \<and>
   (\<forall>k<length logs. \<forall>t. 0 < t \<and> t < length (logs ! k) \<longrightarrow>
      (\<forall>q\<in>set (logs ! k ! t).
         q \<notin> processedKey fs ` set (concat (concat (take k logs))) \<and>
         q \<notin> processedKey fs ` set (concat (take t (logs ! k))))) \<and>
   (\<forall>k<length logs. toSet (splitToQuantiles sourceFilePaths K ! k) \<noteq> [] \<longrightarrow>
      logs ! k \<noteq> [] \<and> hd (logs ! k) = toSet (splitToQuantiles sourceFilePaths K ! k))"
proof -
  note log = getUnresolvedIncludeDirectives_log [OF assms]
  have len: "length logs = length (splitToQuantiles sourceFilePaths K)" using log by simp
  have wl: "walkLog fs indexedPaths hdrs (processedKey fs ` set (concat (concat (take k logs))))
           (toSet (splitToQuantiles sourceFilePaths K ! k)) (logs ! k)"
    and ne: "toSet (splitToQuantiles sourceFilePaths K ! k) \<noteq> [] \<longrightarrow> logs ! k \<noteq> []"
    if "k < length logs" for k
    using log that by simp_all
  have fresh: "q \<notin> processedKey fs ` set (concat (concat (take k logs))) \<and>
         q \<notin> processedKey fs ` set (concat (take t (logs ! k)))"
    if "k < length logs" "0 < t \<and> t < length (logs ! k)" "q \<in> set (logs ! k ! t)" for k t q
    using wl [OF that(1)] that(2,3) unfolding walkLog_def reachedTurn_def by blast
  have seeds: "logs ! k \<noteq> [] \<and> hd (logs ! k) = toSet (splitToQuantiles sourceFilePaths K ! k)"
    if "k < length logs" "toSet (splitToQuantiles sourceFilePaths K ! k) \<noteq> []" for k
    using wl [OF that(1)] ne [OF that(1)] that(2) unfolding walkLog_def reachedTurn_def by blast
  from len fresh seeds show ?thesis by blast
qed

theorem processed_paths_shared_across_shards_witness:
  "getUnresolvedIncludeDirectives projectFS [''/p/a.cpp'', ''/p/b.h''] [''/p''] [] 2 =
     Some ([\<lparr>includedFile = ''missing.h'', includingFile = ''/p/b.h'', lineNumber = 1,
               usesBrackets = True\<rparr>,
            \<lparr>includedFile = ''vector'', includingFile = ''/p/a.cpp'', lineNumber = 1,
               usesBrackets = True\<rparr>],
           [0, 1 / 2, 1], [[[''/p/a.cpp''], [''/p/b.h'']], [[''/p/b.h'']]]) \<and>
   ''/p/b.h'' \<notin> processedKey projectFS ` set (concat (take 1 [[''/p/a.cpp''], [''/p/b.h'']])) \<and>
   hd [[''/p/b.h'']] = toSet (splitToQuantiles [''/p/a.cpp'', ''/p/b.h''] 2 ! 1)"
proof -
  note t = processed_paths_shared_across_shards [OF run_project]
  have fresh: "''/p/b.h'' \<notin> processedKey projectFS ` set (concat (take 1 [[''/p/a.cpp''], [''/p/b.h'']]))"
    using t [THEN conjunct2, THEN conjunct1, THEN spec, of 0, THEN mp, THEN spec, of 1]
    by simp
  have seeds: "hd [[''/p/b.h'']] = toSet (splitToQuantiles [''/p/a.cpp'', ''/p/b.h''] 2 ! 1)"
    using t [THEN conjunct2, THEN conjunct2, THEN spec, of 1]
    by (simp add: toSet_def splitToQuantiles_def insort_insert_key_def)
  from run_project fresh seeds show ?thesis by blast
qed

text \<open>
  Claim C3 as it is written fails for a source file of a later shard: with two shards,
  \<^verbatim>\<open>/p/b.h\<close> is processed in the first shard, reached from \<^verbatim>\<open>/p/a.cpp\<close>, and again as
  the source file of the second.
\<close>

theorem shard_repeat_counterexample:
  "getUnresolvedIncludeDirectives projectFS [''/p/a.cpp'', ''/p/b.h''] [''/p''] [] 2 =
     Some ([\<lparr>includedFile = ''missing.h'', includingFile = ''/p/b.h'', lineNumber = 1,
               usesBrackets = True\<rparr>,
            \<lparr>includedFile = ''vector'', includingFile = ''/p/a.cpp'', lineNumber = 1,
               usesBrackets = True\<rparr>],
           [0, 1 / 2, 1], [[[''/p/a.cpp''], [''/p/b.h'']], [[''/p/b.h'']]]) \<and>
   ''/p/b.h'' \<in> set (concat ([[[''/p/a.cpp''], [''/p/b.h'']], [[''/p/b.h'']]] ! 0)) \<and>
   ''/p/b.h'' \<in> set (concat ([[[''/p/a.cpp''], [''/p/b.h'']], [[''/p/b.h'']]] ! 1))"
  using run_project by simp

text \<open>
  Claim C4, as amended. In every turn of the walk the files for the next turn are the
  canonical resolved paths of the directives of this turn's files that are not empty, not
  among the processed paths and within some indexed path, so a path within no indexed
  path is not enqueued; the directives appended to the result are those whose resolution
  is empty, so a directive that resolves is not reported. Every file of a turn after the
  first of its shard is within an indexed path and is the canonical resolved path of a
  directive of a file of the turn before, the first turn has the source files of the
  shard, and every returned directive is an unresolved directive of a file of some turn,
  each such directive being returned up to the included file. So the unresolvable
  includes of a file outside the indexed paths are returned only if that file is itself
  a source file.
\<close>

theorem boundary_containment:
  assumes "getUnresolvedIncludeDirectives fs sourceFilePaths indexedPaths hdrs K =
             Some (ret, progress, logs)"
  shows
  "(\<forall>s. set (filePathsToProcess (walkStep fs indexedPaths hdrs s)) =
          {q. \<exists>f\<in>set (filePathsToProcess s). \<exists>d\<in>set (getIncludeDirectives fs f).
                q = resolvedCanonical fs hdrs d \<and> q \<noteq> [] \<and>
                q \<notin> processedFilePaths (walkStep fs indexedPaths hdrs s) \<and>
                withinIndexedPaths fs indexedPaths q} \<and>
        unresolvedIncludeDirectives (walkStep fs indexedPaths hdrs s) =
          unresolvedIncludeDirectives s @
          concat (map (unresolvedIn fs hdrs) (filePathsToProcess s))) \<and>
   (\<forall>k<length logs. \<forall>t. 0 < t \<and> t < length (logs ! k) \<longrightarrow>
      (\<forall>q\<in>set (logs ! k ! t).
         withinIndexedPaths fs indexedPaths q \<and>
         (\<exists>f\<in>set (logs ! k ! (t - 1)). \<exists>d\<in>set (getIncludeDirectives fs f).
            q = resolvedCanonical fs hdrs d))) \<and>
   (\<forall>k<length logs. logs ! k \<noteq> [] \<longrightarrow>
      hd (logs ! k) = toSet (splitToQuantiles sourceFilePaths K ! k)) \<and>
   set ret \<subseteq> set (concat (map (unresolvedIn fs hdrs) (concat (concat logs)))) \<and>
   includedFile ` set ret =
     includedFile ` set (concat (map (unresolvedIn fs hdrs) (concat (concat logs))))"
proof -
  note log = getUnresolvedIncludeDirectives_log [OF assms]
  have step: "set (filePathsToProcess (walkStep fs indexedPaths hdrs s)) =
          {q. \<exists>f\<in>set (filePathsToProcess s). \<exists>d\<in>set (getIncludeDirectives fs f).
                q = resolvedCanonical fs hdrs d \<and> q \<noteq> [] \<and>
                q \<notin> processedFilePaths (walkStep fs indexedPaths hdrs s) \<and>
                withinIndexedPaths fs indexedPaths q} \<and>
        unresolvedIncludeDirectives (walkStep fs indexedPaths hdrs s) =
          unresolvedIncludeDirectives s @
          concat (map (unresolvedIn fs hdrs) (filePathsToProcess s))" for s
    using walkStep_frontier [of fs indexedPaths hdrs s] walkStep_unresolved [of fs indexedPaths hdrs s]
    by blast
  have wl: "walkLog fs indexedPaths hdrs (processedKey fs ` set (concat (concat (take k logs))))
           (toSet (splitToQuantiles sourceFilePaths K ! k)) (logs ! k)"
    if "k < length logs" for k
    using log that by simp
  have inside: "withinIndexedPaths fs indexedPaths q \<and>
         (\<exists>f\<in>set (logs ! k ! (t - 1)). \<exists>d\<in>set (getIncludeDirectives fs f).
            q = resolvedCanonical fs hdrs d)"
    if "k < length logs" "0 < t \<and> t < length (logs ! k)" "q \<in> set (logs ! k ! t)" for k t q
  proof -
    have "reachedTurn fs indexedPaths hdrs
        (processedKey fs ` set (concat (concat (take k logs))) \<union>
         processedKey fs ` set (concat (take t (logs ! k))))
        (logs ! k ! (t - 1)) (logs ! k ! t)"
      using wl [OF that(1)] that(2) unfolding walkLog_def by blast
    then show ?thesis using that(3) unfolding reachedTurn_def by blast
  qed
  have seeds: "hd (logs ! k) = toSet (splitToQuantiles sourceFilePaths K ! k)"
    if "k < length logs" "logs ! k \<noteq> []" for k
    using wl [OF that(1)] that(2) unfolding walkLog_def reachedTurn_def by blast
  have sub: "set ret \<subseteq> set (concat (map (unresolvedIn fs hdrs) (concat (concat logs))))"
    and img: "includedFile ` set ret =
     includedFile ` set (concat (map (unresolvedIn fs hdrs) (concat (concat logs))))"
    using log by simp_all
  from step inside seeds sub img show ?thesis by blast
qed

lemma run_external:
  "getUnresolvedIncludeDirectives externalFS [''/ext/x.h'', ''/p/a.cpp''] [''/p''] [] 1 =
     Some ([\<lparr>includedFile = ''missing.h'', includingFile = ''/ext/x.h'', lineNumber = 1,
               usesBrackets = True\<rparr>],
           [0, 1], [[[''/ext/x.h'', ''/p/a.cpp'']]])"
  by code_simp

theorem boundary_containment_witness:
  "getUnresolvedIncludeDirectives externalFS [''/ext/x.h'', ''/p/a.cpp''] [''/p''] [] 1 =
     Some ([\<lparr>includedFile = ''missing.h'', includingFile = ''/ext/x.h'', lineNumber = 1,
               usesBrackets = True\<rparr>],
           [0, 1], [[[''/ext/x.h'', ''/p/a.cpp'']]]) \<and>
   set [\<lparr>includedFile = ''missing.h'', includingFile = ''/ext/x.h'', lineNumber = 1,
               usesBrackets = True\<rparr>] \<subseteq>
     set (concat (map (unresolvedIn externalFS []) (concat (concat [[[''/ext/x.h'', ''/p/a.cpp'']]]))))"
  using run_external boundary_containment [OF run_external] by blast

text \<open>
  Claim C4 as it is written fails when the file outside the indexed paths is a source
  file: the include of \<^verbatim>\<open>/ext/x.h\<close> in \<^verbatim>\<open>/p/a.cpp\<close> resolves outside \<^verbatim>\<open>/p\<close> and is not
  enqueued, and the unresolvable include nested in \<^verbatim>\<open>/ext/x.h\<close> is returned all the same.
\<close>

theorem nested_unresolved_counterexample:
  "\<lparr>includedFile = ''/ext/x.h'', includingFile = ''/p/a.cpp'', lineNumber = 1,
      usesBrackets = False\<rparr> \<in> set (getIncludeDirectives externalFS ''/p/a.cpp'') \<and>
   resolvedCanonical externalFS []
     \<lparr>includedFile = ''/ext/x.h'', includingFile = ''/p/a.cpp'', lineNumber = 1,
      usesBrackets = False\<rparr> = ''/ext/x.h'' \<and>
   \<not> withinIndexedPaths externalFS [''/p''] ''/ext/x.h'' \<and>
   \<lparr>includedFile = ''missing.h'', includingFile = ''/ext/x.h'', lineNumber = 1,
      usesBrackets = True\<rparr> \<in> set (unresolvedIn externalFS [] ''/ext/x.h'') \<and>
   getUnresolvedIncludeDirectives externalFS [''/ext/x.h'', ''/p/a.cpp''] [''/p''] [] 1 =
     Some ([\<lparr>includedFile = ''missing.h'', includingFile = ''/ext/x.h'', lineNumber = 1,
               usesBrackets = True\<rparr>],
           [0, 1], [[[''/ext/x.h'', ''/p/a.cpp'']]])"
proof -
  have 1: "\<lparr>includedFile = ''/ext/x.h'', includingFile = ''/p/a.cpp'', lineNumber = 1,
      usesBrackets = False\<rparr> \<in> set (getIncludeDirectives externalFS ''/p/a.cpp'')"
    by code_simp
  have 2: "resolvedCanonical externalFS []
     \<lparr>includedFile = ''/ext/x.h'', includingFile = ''/p/a.cpp'', lineNumber = 1,
      usesBrackets = False\<rparr> = ''/ext/x.h''"
    by code_simp
  have 3: "\<not> withinIndexedPaths externalFS [''/p''] ''/ext/x.h''"
    by code_simp
  have 4: "\<lparr>includedFile = ''missing.h'', includingFile = ''/ext/x.h'', lineNumber = 1,
      usesBrackets = True\<rparr> \<in> set (unresolvedIn externalFS [] ''/ext/x.h'')"
    by code_simp
  from 1 2 3 4 run_external show ?thesis by blast
qed

section \<open>Termination of the unresolved directive discovery\<close>

text \<open>
  Under the laws of the path primitives every call of
  \<^verbatim>\<open>doGetUnresolvedIncludeDirectives\<close> leaves its loop, whatever files and processed paths
  it receives, include cycles or not: after the first turn every file to process is the
  canonical form of an existing path and not among the processed paths, and a turn puts
  all of them there, so the canonical forms not yet processed get fewer with every turn.
\<close>

lemma searchDirectories_exists:
  "searchDirectories fs inc dirs \<noteq> [] \<Longrightarrow> exists fs (searchDirectories fs inc dirs)"
  by (induction dirs) (auto simp: Let_def split: if_splits)

lemma resolveIncludeDirective_exists:
  "resolveIncludeDirective fs d dirs \<noteq> [] \<Longrightarrow> exists fs (resolveIncludeDirective fs d dirs)"
  by (auto simp: resolveIncludeDirective_def Let_def searchDirectories_exists split: if_splits)

lemma resolvedCanonical_existing:
  assumes "canonicalFileSystem fs" "resolvedCanonical fs hdrs d \<noteq> []"
  shows "resolvedCanonical fs hdrs d \<in> makeCanonical fs ` {p. exists fs p}"
proof -
  have "resolveIncludeDirective fs d hdrs \<noteq> []"
    using assms by (auto simp: canonicalFileSystem_def resolvedCanonical_def)
  then have "exists fs (resolveIncludeDirective fs d hdrs)"
    by (rule resolveIncludeDirective_exists)
  then show ?thesis by (auto simp: resolvedCanonical_def)
qed

lemma walkStep_frontier_fresh:
  assumes "canonicalFileSystem fs"
  shows "set (filePathsToProcess (walkStep fs idx hdrs s)) \<subseteq>
         makeCanonical fs ` {p. exists fs p} - processedFilePaths (walkStep fs idx hdrs s)"
  unfolding walkStep_frontier using resolvedCanonical_existing [OF assms] by blast

lemma walkStep_decreases:
  assumes fs: "canonicalFileSystem fs"
    and fresh: "set (filePathsToProcess s) \<subseteq> makeCanonical fs ` {p. exists fs p} - processedFilePaths s"
    and more: "filePathsToProcess s \<noteq> []"
  shows "card (makeCanonical fs ` {p. exists fs p} - processedFilePaths (walkStep fs idx hdrs s)) <
         card (makeCanonical fs ` {p. exists fs p} - processedFilePaths s)"
proof -
  let ?U = "makeCanonical fs ` {p. exists fs p}"
  obtain q where q: "q \<in> set (filePathsToProcess s)" using more by (cases "filePathsToProcess s") auto
  then have qU: "q \<in> ?U" and qP: "q \<notin> processedFilePaths s" using fresh by auto
  from qU obtain p where "exists fs p" "q = makeCanonical fs p" by auto
  then have "processedKey fs q = q" using fs by (simp add: canonicalFileSystem_def)
  then have "q \<in> processedFilePaths (walkStep fs idx hdrs s)"
    using q by (auto simp: walkStep_processed image_iff intro: bexI [of _ q])
  then have "?U - processedFilePaths (walkStep fs idx hdrs s) \<subset> ?U - processedFilePaths s"
    using qU qP by (auto simp: walkStep_processed)
  moreover have "finite (?U - processedFilePaths s)"
    using fs by (simp add: canonicalFileSystem_def)
  ultimately show ?thesis by (rule psubset_card_mono [rotated])
qed

lemma doGetUnresolvedIncludeDirectives_terminates:
  assumes "canonicalFileSystem fs"
  shows "\<exists>r. doGetUnresolvedIncludeDirectives fs seeds P0 idx hdrs = Some r"
proof -
  let ?b = "\<lambda>s :: UnresolvedWalk. filePathsToProcess s \<noteq> []" and ?c = "walkStep fs idx hdrs"
  let ?U = "makeCanonical fs ` {p. exists fs p}"
  let ?J = "\<lambda>s :: UnresolvedWalk. set (filePathsToProcess s) \<subseteq> ?U - processedFilePaths s"
  let ?init = "\<lparr>filePathsToProcess = seeds, processedFilePaths = P0,
      unresolvedIncludeDirectives = [], extracted = []\<rparr>"
  have later: "\<exists>t. while_option ?b ?c (?c s) = Some t" for s
  proof (rule measure_while_option_Some [where P = ?J
        and f = "\<lambda>s :: UnresolvedWalk. card (?U - processedFilePaths s)"])
    fix t assume "?J t" "?b t"
    then show "?J (?c t) \<and> card (?U - processedFilePaths (?c t)) < card (?U - processedFilePaths t)"
      using walkStep_frontier_fresh [OF assms] walkStep_decreases [OF assms] by blast
  next
    show "?J (?c s)" by (rule walkStep_frontier_fresh [OF assms])
  qed
  have "\<exists>t. while_option ?b ?c ?init = Some t"
  proof (cases "?b ?init")
    case True
    then have "while_option ?b ?c ?init = while_option ?b ?c (?c ?init)"
      by (subst while_option_unfold) simp
    then show ?thesis using later [of ?init] by simp
  next
    case False
    then have "while_option ?b ?c ?init = Some ?init"
      by (subst while_option_unfold) simp
    then show ?thesis by blast
  qed
  then show ?thesis by (auto simp: doGetUnresolvedIncludeDirectives_def)
qed

lemma unresolvedShards_terminates:
  assumes "canonicalFileSystem fs"
  shows "\<exists>r'. unresolvedShards fs idx hdrs qs i n r = Some r'"
proof (induction qs arbitrary: i r)
  case Nil
  then show ?case by simp
next
  case (Cons q rest)
  obtain u P L where
    "doGetUnresolvedIncludeDirectives fs (toSet q) (processedAcrossShards r) idx hdrs = Some (u, P, L)"
    using doGetUnresolvedIncludeDirectives_terminates [OF assms] by (metis prod_cases3)
  then show ?case using Cons.IH by simp
qed

lemma getUnresolvedIncludeDirectives_terminates:
  assumes "canonicalFileSystem fs"
  shows "\<exists>res. getUnresolvedIncludeDirectives fs src idx hdrs K = Some res"
  using unresolvedShards_terminates [OF assms]
  unfolding getUnresolvedIncludeDirectives_def Let_def
  by (metis (no_types, lifting) option.simps(5))

lemma canonical_exampleFS:
  assumes cwd: "take 1 cwd = ''/''" and files: "\<forall>f\<in>fst ` set files. take 1 f = ''/''"
  shows "canonicalFileSystem (exampleFS cwd files)"
proof -
  let ?fs = "exampleFS cwd files"
  have ex: "exists ?fs p \<longleftrightarrow> p \<noteq> [] \<and> absoluteIn cwd p \<in> fst ` set files" for p
    by (simp add: exampleFS_def)
  have can: "makeCanonical ?fs p = (if p = [] then [] else absoluteIn cwd p)" for p
    by (simp add: exampleFS_def)
  have abs: "getAbsolute ?fs p = absoluteIn cwd p" for p
    by (simp add: exampleFS_def)
  have "makeCanonical ?fs ` {p. exists ?fs p} \<subseteq> fst ` set files"
    by (auto simp: ex can)
  then have 1: "finite (makeCanonical ?fs ` {p. exists ?fs p})"
    by (rule finite_subset) simp
  have 3: "processedKey ?fs (makeCanonical ?fs p) = makeCanonical ?fs p" if "exists ?fs p" for p
  proof -
    let ?a = "absoluteIn cwd p"
    have a: "makeCanonical ?fs p = ?a" and m: "?a \<in> fst ` set files"
      using that by (simp_all add: ex can)
    then have "take 1 ?a = ''/''" using files by blast
    then have "absoluteIn cwd ?a = ?a" and "?a \<noteq> []" by (auto simp: absoluteIn_def)
    then show ?thesis unfolding a by (simp add: processedKey_def abs can)
  qed
  show ?thesis unfolding canonicalFileSystem_def using 1 3 by (simp add: can)
qed

lemma canonical_projectFS: "canonicalFileSystem projectFS"
  unfolding projectFS_def by (rule canonical_exampleFS) simp_all

lemma canonical_selfIncludeFS: "canonicalFileSystem selfIncludeFS"
  unfolding selfIncludeFS_def by (rule canonical_exampleFS) simp_all

lemma canonical_cycleFS: "canonicalFileSystem cycleFS"
  unfolding cycleFS_def by (rule canonical_exampleFS) simp_all

lemma run_cycle:
  "getUnresolvedIncludeDirectives cycleFS [''/p/a.h''] [''/p''] [] 1 =
     Some ([\<lparr>includedFile = ''missing.h'', includingFile = ''/p/b.h'', lineNumber = 2,
               usesBrackets = True\<rparr>],
           [0, 1], [[[''/p/a.h''], [''/p/b.h'']]])"
  by code_simp

section \<open>The progress values\<close>

text \<open>
  A call that returns has called \<^verbatim>\<open>progress\<close> with \<open>i / n\<close> for every shard \<open>i\<close> of the
  \<open>n\<close> shards, in their order, and with 1 at last (\<^verbatim>\<open>getHeaderSearchDirectories\<close> with 0
  before all that): values from 0 to 1, never decreasing, the last one 1.
\<close>

lemma upt_shift_map: "map (\<lambda>j. f (i + j)) [0..<Suc m] = f i # map (\<lambda>j. f (Suc i + j)) [0..<m]"
proof -
  have "[0..<Suc m] = 0 # map Suc [0..<m]"
    by (simp add: upt_conv_Cons map_Suc_upt del: upt_Suc)
  then show ?thesis by (simp add: comp_def del: upt_Suc)
qed

lemma unresolvedShards_progressed:
  "unresolvedShards fs idx hdrs qs i n r = Some r' \<Longrightarrow>
   progressed r' = progressed r @ map (\<lambda>j. real (i + j) / real n) [0..<length qs]"
proof (induction qs arbitrary: i r)
  case Nil
  then show ?case by simp
next
  case (Cons q rest)
  from Cons.prems obtain u P L where
    run: "unresolvedShards fs idx hdrs rest (i + 1) n
            \<lparr>processedAcrossShards = P,
             unresolvedSet = fold (insort_insert_key includedFile) u (unresolvedSet r),
             progressed = progressed r @ [real i / real n],
             shardLogs = shardLogs r @ [L]\<rparr> = Some r'"
    by (auto split: option.splits)
  have "progressed r' =
      (progressed r @ [real i / real n]) @ map (\<lambda>j. real (i + 1 + j) / real n) [0..<length rest]"
    using Cons.IH [OF run] by simp
  also have "\<dots> = progressed r @ map (\<lambda>j. real (i + j) / real n) [0..<length (q # rest)]"
    using upt_shift_map [of "\<lambda>k. real k / real n" i "length rest"] by simp
  finally show ?case .
qed

lemma unresolved_progress:
  assumes "getUnresolvedIncludeDirectives fs src idx hdrs K = Some (ret, progress, logs)"
  shows "progress =
      map (\<lambda>j. real j / real (length (splitToQuantiles src K)))
        [0..<length (splitToQuantiles src K)] @ [1]"
proof -
  from assms obtain r where
    run: "unresolvedShards fs idx hdrs (splitToQuantiles src K) 0
            (length (splitToQuantiles src K))
            \<lparr>processedAcrossShards = {}, unresolvedSet = [], progressed = [],
             shardLogs = []\<rparr> = Some r"
    and p: "progress = progressed r @ [1]"
    by (auto simp: getUnresolvedIncludeDirectives_def Let_def split: option.splits)
  show ?thesis using unresolvedShards_progressed [OF run] p by simp
qed

lemma discoverStep_progressValues:
  "progressValues (discoverStep fs trees hdrs s) = progressValues s"
  by (simp add: discoverStep_def Let_def split: prod.splits)

lemma discoveryShards_progressValues:
  "discoveryShards fs trees hdrs qs i n s = Some s' \<Longrightarrow>
   progressValues s' = progressValues s @ map (\<lambda>j. real (i + j) / real n) [0..<length qs]"
proof (induction qs arbitrary: i s)
  case Nil
  then show ?case by simp
next
  case (Cons q rest)
  from Cons.prems obtain s1 where
    w: "while_option (\<lambda>s. unprocessedFilePaths s \<noteq> []) (discoverStep fs trees hdrs)
          (enterShard q i n s) = Some s1"
    and run: "discoveryShards fs trees hdrs rest (i + 1) n s1 = Some s'"
    by (auto split: option.splits)
  have "progressValues s1 = progressValues (enterShard q i n s)"
    by (rule while_option_rule [where P = "\<lambda>t. progressValues t = progressValues (enterShard q i n s)", OF _ w])
       (simp_all add: discoverStep_progressValues)
  then have s1: "progressValues s1 = progressValues s @ [real i / real n]"
    by (simp add: enterShard_def)
  have "progressValues s' =
      (progressValues s @ [real i / real n]) @ map (\<lambda>j. real (i + 1 + j) / real n) [0..<length rest]"
    using Cons.IH [OF run] s1 by simp
  also have "\<dots> = progressValues s @ map (\<lambda>j. real (i + j) / real n) [0..<length (q # rest)]"
    using upt_shift_map [of "\<lambda>k. real k / real n" i "length rest"] by simp
  finally show ?case .
qed

lemma discovery_progress:
  assumes "getHeaderSearchDirectories fs src trees hdrs K = Some (dirs, progress, turns)"
  shows "progress =
      0 # map (\<lambda>j. real j / real (length (splitToQuantiles src K)))
        [0..<length (splitToQuantiles src K)] @ [1]"
proof -
  from assms obtain s where
    run: "discoveryShards fs trees hdrs (splitToQuantiles src K) 0
            (length (splitToQuantiles src K)) discoveryStart = Some s"
    and p: "progress = progressValues s @ [1]"
    by (auto simp: getHeaderSearchDirectories_def Let_def split: option.splits)
  show ?thesis using discoveryShards_progressValues [OF run] p by (simp add: discoveryStart_def)
qed

lemma progress_shape:
  assumes "0 < n"
  defines "vs \<equiv> map (\<lambda>j. real j / real n) [0..<n] @ [1]"
  shows "(\<forall>v\<in>set vs. 0 \<le> v \<and> v \<le> 1) \<and> sorted vs \<and> last vs = 1"
proof -
  have range: "0 \<le> real j / real n \<and> real j / real n \<le> 1" if "j < n" for j
    using that assms(1) by (simp add: divide_le_eq_1)
  have mono: "sorted (map (\<lambda>j. real j / real n) [0..<n])"
    by (auto simp: sorted_iff_nth_mono divide_right_mono)
  show ?thesis
    unfolding vs_def using range mono by (auto simp: sorted_append)
qed

section \<open>Header search directory discovery on an include cycle\<close>

lemma while_option_None:
  "(\<And>k. b ((c ^^ k) s)) \<Longrightarrow> while_option b c s = None"
  by (simp add: while_option_def)

lemma selfInclude_directives:
  "getIncludeDirectives selfIncludeFS ''a.h'' =
     [\<lparr>includedFile = ''a.h'', includingFile = ''a.h'', lineNumber = 1, usesBrackets = False\<rparr>]"
  by code_simp

lemma selfInclude_resolve:
  "resolveIncludeDirective selfIncludeFS
     \<lparr>includedFile = ''a.h'', includingFile = ''a.h'', lineNumber = n, usesBrackets = b\<rparr> [] =
   ''a.h''"
  by (simp add: resolveIncludeDirective_def selfIncludeFS_def exampleFS_def absoluteIn_def
      parentOf_def)

lemma selfInclude_exists: "exists selfIncludeFS ''a.h''"
  by code_simp

lemma selfInclude_absolute: "getAbsolute selfIncludeFS ''a.h'' = ''/w/a.h''"
  by code_simp

lemma selfInclude_directive:
  "''a.h'' \<notin> P \<Longrightarrow>
   discoverDirective selfIncludeFS [] [] P
      \<lparr>includedFile = ''a.h'', includingFile = ''a.h'', lineNumber = n, usesBrackets = b\<rparr>
      (dirs, []) = (dirs, [''a.h''])"
  by (simp add: discoverDirective_def Let_def selfInclude_resolve selfInclude_exists
        insort_insert_key_def)

lemma selfInclude_step:
  assumes "selfIncludeInv s"
  shows "selfIncludeInv (discoverStep selfIncludeFS [] [] s)"
proof -
  have f: "unprocessedFilePaths s = [''a.h'']" and p: "processedStrings s \<subseteq> {''/w/a.h''}"
    and v: "progressValues s = [0, 0]"
    using assms by (simp_all add: selfIncludeInv_def)
  have notin: "''a.h'' \<notin> processedStrings s" using p by auto
  have "discoverStep selfIncludeFS [] [] s =
      s\<lparr>unprocessedFilePaths := [''a.h''],
        processedStrings := processedStrings s \<union> {''/w/a.h''},
        discoveredDirectories := discoveredDirectories s,
        discoveryLog := discoveryLog s @ [[''a.h'']]\<rparr>"
    by (simp add: discoverStep_def Let_def f discoverFile_def selfInclude_directives
        selfInclude_absolute selfInclude_directive notin)
  then show ?thesis using p v by (simp add: selfIncludeInv_def)
qed

lemma selfInclude_start:
  "selfIncludeInv (enterShard [''a.h''] 0 1 discoveryStart)"
  by (simp add: selfIncludeInv_def enterShard_def discoveryStart_def toSet_def insort_insert_key_def)

lemma selfInclude_iterates:
  "selfIncludeInv ((discoverStep selfIncludeFS [] [] ^^ k) (enterShard [''a.h''] 0 1 discoveryStart))"
proof (induction k)
  case 0
  show ?case using selfInclude_start by simp
next
  case (Suc k)
  then show ?case using selfInclude_step by simp
qed

text \<open>
  The header \<^verbatim>\<open>a.h\<close> of the working directory \<^verbatim>\<open>/w\<close> includes itself, and
  \<^verbatim>\<open>getHeaderSearchDirectories\<close> is called with the relative path \<^verbatim>\<open>a.h\<close>. The loop stores
  the absolute path \<^verbatim>\<open>/w/a.h\<close> among the processed paths (line 113) and looks the
  resolved path \<^verbatim>\<open>a.h\<close> up as it is written (line 144), so it finds \<^verbatim>\<open>a.h\<close> unprocessed
  in every turn and never ends: the call does not return.
  \<^verbatim>\<open>doGetUnresolvedIncludeDirectives\<close> stores and looks up the canonical form, and returns
  on the same input.
\<close>

lemma discovery_diverges_on_self_include:
  "getHeaderSearchDirectories selfIncludeFS [''a.h''] [] [] 1 = None"
proof -
  have "while_option (\<lambda>s. unprocessedFilePaths s \<noteq> []) (discoverStep selfIncludeFS [] [])
          (enterShard [''a.h''] 0 1 discoveryStart) = None"
  proof (rule while_option_None)
    fix k
    show "unprocessedFilePaths
            ((discoverStep selfIncludeFS [] [] ^^ k) (enterShard [''a.h''] 0 1 discoveryStart)) \<noteq> []"
      using selfInclude_iterates [of k] by (simp add: selfIncludeInv_def)
  qed
  then show ?thesis
    by (simp add: getHeaderSearchDirectories_def splitToQuantiles_def)
qed

lemma unresolved_returns_on_self_include:
  "getUnresolvedIncludeDirectives selfIncludeFS [''a.h''] [''/w''] [] 1 =
     Some ([], [0, 1], [[[''a.h'']]])"
  by code_simp

section \<open>Cycle safety\<close>

lemma reachedTurn_key:
  assumes "canonicalFileSystem fs" "reachedTurn fs idx hdrs P previous turn" "q \<in> set turn"
  shows "processedKey fs q = q"
proof -
  from assms(2,3) obtain d where "q = resolvedCanonical fs hdrs d" "q \<noteq> []"
    unfolding reachedTurn_def by blast
  then have "q \<in> makeCanonical fs ` {p. exists fs p}"
    using resolvedCanonical_existing [OF assms(1)] by simp
  then show ?thesis using assms(1) by (auto simp: canonicalFileSystem_def)
qed

lemma walkLog_reached_once:
  assumes fs: "canonicalFileSystem fs"
  shows "walkLog fs idx hdrs P0 seeds L \<Longrightarrow>
     distinct (concat (tl L)) \<and> set (concat (tl L)) \<inter> P0 = {} \<and>
     (\<forall>q\<in>set (concat (tl L)). processedKey fs q = q)"
proof (induction L rule: rev_induct)
  case Nil
  then show ?case by simp
next
  case (snoc F L)
  have prev: "walkLog fs idx hdrs P0 seeds L" using snoc.prems by (rule walkLog_butlast)
  note IH = snoc.IH [OF prev]
  show ?case
  proof (cases "L = []")
    case True
    then show ?thesis by simp
  next
    case False
    then have t: "0 < length L \<and> length L < length (L @ [F])" by simp
    have "reachedTurn fs idx hdrs
        (P0 \<union> processedKey fs ` set (concat (take (length L) (L @ [F]))))
        ((L @ [F]) ! (length L - 1)) ((L @ [F]) ! length L)"
      using snoc.prems t unfolding walkLog_def by blast
    then have r: "reachedTurn fs idx hdrs (P0 \<union> processedKey fs ` set (concat L))
        ((L @ [F]) ! (length L - 1)) F"
      by simp
    have dF: "distinct F" using r by (simp add: reachedTurn_def strict_sorted_iff)
    have keyF: "processedKey fs q = q" if "q \<in> set F" for q
      using reachedTurn_key [OF fs r that] .
    have freshF: "q \<notin> P0 \<and> q \<notin> processedKey fs ` set (concat L)" if "q \<in> set F" for q
      using r that unfolding reachedTurn_def by blast
    have sub: "set (concat (tl L)) \<subseteq> set (concat L)" by (cases L) auto
    have "q \<notin> set (concat (tl L))" if "q \<in> set F" for q
    proof
      assume a: "q \<in> set (concat (tl L))"
      then have key: "processedKey fs q = q" using IH by blast
      have "q \<in> set (concat L)" using a sub by blast
      then have "processedKey fs q \<in> processedKey fs ` set (concat L)" by (rule imageI)
      then have "q \<in> processedKey fs ` set (concat L)" using key by simp
      then show False using freshF [OF that] by blast
    qed
    then have disj: "set (concat (tl L)) \<inter> set F = {}" by blast
    have tl: "concat (tl (L @ [F])) = concat (tl L) @ F" using False by simp
    have 1: "distinct (concat (tl L) @ F)" using IH dF disj by simp
    have 2: "set (concat (tl L) @ F) \<inter> P0 = {}" using IH freshF by auto
    have 3: "\<forall>q\<in>set (concat (tl L) @ F). processedKey fs q = q" using IH keyF by auto
    show ?thesis unfolding tl using 1 2 3 by blast
  qed
qed

lemma shards_reached_once:
  assumes fs: "canonicalFileSystem fs"
  shows "(\<forall>k<length logs. \<exists>seeds.
            walkLog fs idx hdrs (processedKey fs ` set (concat (concat (take k logs)))) seeds
              (logs ! k)) \<Longrightarrow>
     distinct (concat (concat (map tl logs))) \<and>
     (\<forall>q\<in>set (concat (concat (map tl logs))). processedKey fs q = q)"
proof (induction logs rule: rev_induct)
  case Nil
  then show ?case by simp
next
  case (snoc L logs)
  have prev: "\<forall>k<length logs. \<exists>seeds.
      walkLog fs idx hdrs (processedKey fs ` set (concat (concat (take k logs)))) seeds (logs ! k)"
  proof (intro allI impI)
    fix k assume k: "k < length logs"
    then have "k < length (logs @ [L])" by simp
    then obtain seeds where
      "walkLog fs idx hdrs (processedKey fs ` set (concat (concat (take k (logs @ [L]))))) seeds
         ((logs @ [L]) ! k)"
      using snoc.prems by blast
    then show "\<exists>seeds. walkLog fs idx hdrs
        (processedKey fs ` set (concat (concat (take k logs)))) seeds (logs ! k)"
      using k by (auto simp: nth_append)
  qed
  note IH = snoc.IH [OF prev]
  have "length logs < length (logs @ [L])" by simp
  then obtain seeds where
    "walkLog fs idx hdrs (processedKey fs ` set (concat (concat (take (length logs) (logs @ [L])))))
       seeds ((logs @ [L]) ! length logs)"
    using snoc.prems by blast
  then have last: "walkLog fs idx hdrs (processedKey fs ` set (concat (concat logs))) seeds L"
    by simp
  note once = walkLog_reached_once [OF fs last]
  have sub: "set (concat (concat (map tl logs))) \<subseteq> set (concat (concat logs))"
  proof
    fix q assume "q \<in> set (concat (concat (map tl logs)))"
    then obtain T x where T: "T \<in> set logs" "x \<in> set (tl T)" "q \<in> set x" by auto
    have "x \<in> set T" using T(2) by (cases T) simp_all
    then show "q \<in> set (concat (concat logs))" using T(1,3) by auto
  qed
  have "q \<notin> set (concat (tl L))" if "q \<in> set (concat (concat (map tl logs)))" for q
  proof
    assume a: "q \<in> set (concat (tl L))"
    have key: "processedKey fs q = q" using IH that by blast
    have "q \<in> set (concat (concat logs))" using that sub by blast
    then have "processedKey fs q \<in> processedKey fs ` set (concat (concat logs))" by (rule imageI)
    then have "q \<in> processedKey fs ` set (concat (concat logs))" using key by simp
    then show False using once a by blast
  qed
  then have disj: "set (concat (concat (map tl logs))) \<inter> set (concat (tl L)) = {}" by blast
  have c: "concat (concat (map tl (logs @ [L]))) = concat (concat (map tl logs)) @ concat (tl L)"
    by simp
  have 1: "distinct (concat (concat (map tl logs)) @ concat (tl L))" using IH once disj by simp
  have 2: "\<forall>q\<in>set (concat (concat (map tl logs)) @ concat (tl L)). processedKey fs q = q"
    using IH once by auto
  show ?case unfolding c using 1 2 by blast
qed

lemma fold_insort_insert_sorted:
  "sorted_wrt (<) acc \<Longrightarrow> sorted_wrt (<) (fold insort_insert (v :: FilePath list) acc)"
  by (induction v arbitrary: acc) (simp_all add: strict_sorted_insort_insert)

lemma toSet_sorted: "sorted_wrt (<) (toSet v)"
  by (simp add: toSet_def fold_insort_insert_sorted)

text \<open>
  Claim C2, as amended. Under the laws of the path primitives, for every set of source
  files and whatever the includes are, cycles among them, \<^verbatim>\<open>getUnresolvedIncludeDirectives\<close>
  returns; and within the call no file is handed to \<^verbatim>\<open>getIncludeDirectives\<close> twice for
  having been reached through an include: such a file is its own key in the processed
  paths, which hold the key of every file processed before, in earlier shards and in
  earlier turns, and a resolved include found there is not enqueued. The source files of
  a shard are its first turn, each once, whether or not the processed paths hold them.
\<close>

theorem unresolved_terminates_and_expands_once:
  assumes "canonicalFileSystem fs"
  shows "\<exists>ret progress logs.
      getUnresolvedIncludeDirectives fs sourceFilePaths indexedPaths hdrs K =
        Some (ret, progress, logs) \<and>
      distinct (concat (concat (map tl logs))) \<and>
      (\<forall>k<length logs. \<forall>t. 0 < t \<and> t < length (logs ! k) \<longrightarrow>
         (\<forall>q\<in>set (logs ! k ! t).
            processedKey fs q = q \<and>
            q \<notin> processedKey fs ` set (concat (concat (take k logs))) \<and>
            q \<notin> processedKey fs ` set (concat (take t (logs ! k))))) \<and>
      (\<forall>k<length logs. logs ! k \<noteq> [] \<longrightarrow>
         hd (logs ! k) = toSet (splitToQuantiles sourceFilePaths K ! k) \<and>
         distinct (hd (logs ! k)))"
proof -
  obtain res where "getUnresolvedIncludeDirectives fs sourceFilePaths indexedPaths hdrs K = Some res"
    using getUnresolvedIncludeDirectives_terminates [OF assms] by blast
  then obtain ret progress logs where
    run: "getUnresolvedIncludeDirectives fs sourceFilePaths indexedPaths hdrs K =
            Some (ret, progress, logs)"
    by (cases res) auto
  note log = getUnresolvedIncludeDirectives_log [OF run]
  have wl: "walkLog fs indexedPaths hdrs (processedKey fs ` set (concat (concat (take k logs))))
           (toSet (splitToQuantiles sourceFilePaths K ! k)) (logs ! k)"
    if "k < length logs" for k
    using log that by simp
  have all: "\<forall>k<length logs. \<exists>seeds.
      walkLog fs indexedPaths hdrs (processedKey fs ` set (concat (concat (take k logs)))) seeds
        (logs ! k)"
    using wl by blast
  have once: "distinct (concat (concat (map tl logs)))"
    using shards_reached_once [OF assms all] by blast
  have fresh: "processedKey fs q = q \<and>
            q \<notin> processedKey fs ` set (concat (concat (take k logs))) \<and>
            q \<notin> processedKey fs ` set (concat (take t (logs ! k)))"
    if "k < length logs" "0 < t \<and> t < length (logs ! k)" "q \<in> set (logs ! k ! t)" for k t q
  proof -
    have r: "reachedTurn fs indexedPaths hdrs
        (processedKey fs ` set (concat (concat (take k logs))) \<union>
         processedKey fs ` set (concat (take t (logs ! k))))
        (logs ! k ! (t - 1)) (logs ! k ! t)"
      using wl [OF that(1)] that(2) unfolding walkLog_def by blast
    have "processedKey fs q = q" using reachedTurn_key [OF assms r that(3)] .
    moreover have "q \<notin> processedKey fs ` set (concat (concat (take k logs))) \<union>
         processedKey fs ` set (concat (take t (logs ! k)))"
      using r that(3) unfolding reachedTurn_def by blast
    ultimately show ?thesis by blast
  qed
  have seeds: "hd (logs ! k) = toSet (splitToQuantiles sourceFilePaths K ! k) \<and>
         distinct (hd (logs ! k))"
    if "k < length logs" "logs ! k \<noteq> []" for k
  proof -
    have "hd (logs ! k) = toSet (splitToQuantiles sourceFilePaths K ! k)"
      using wl [OF that(1)] that(2) unfolding walkLog_def by blast
    then show ?thesis using toSet_sorted [of "splitToQuantiles sourceFilePaths K ! k"]
      by (simp add: strict_sorted_iff)
  qed
  from run once fresh seeds show ?thesis by blast
qed

theorem unresolved_terminates_and_expands_once_witness:
  "canonicalFileSystem cycleFS \<and>
   getUnresolvedIncludeDirectives cycleFS [''/p/a.h''] [''/p''] [] 1 =
     Some ([\<lparr>includedFile = ''missing.h'', includingFile = ''/p/b.h'', lineNumber = 2,
               usesBrackets = True\<rparr>],
           [0, 1], [[[''/p/a.h''], [''/p/b.h'']]]) \<and>
   (\<exists>ret progress logs.
      getUnresolvedIncludeDirectives cycleFS [''/p/a.h''] [''/p''] [] 1 =
        Some (ret, progress, logs) \<and>
      distinct (concat (concat (map tl logs))))"
  using canonical_cycleFS run_cycle
    unresolved_terminates_and_expands_once [OF canonical_cycleFS,
      of "[''/p/a.h'']" "[''/p'']" "[]" 1]
  by blast

lemma discovery_run_project:
  "getHeaderSearchDirectories projectFS [''/p/a.cpp'', ''/p/b.h''] [] [] 2 =
     Some ([], [0, 0, 1 / 2, 1], [[''/p/a.cpp''], [''/p/b.h''], [''/p/b.h'']])"
  by code_simp

text \<open>
  Claim C2 as it is written fails twice. \<^verbatim>\<open>getHeaderSearchDirectories\<close> does not return
  on the header that includes itself. And a file is handed to \<^verbatim>\<open>getIncludeDirectives\<close>
  twice within one call when it is reached through an include in one shard and is a
  source file of a later one: \<^verbatim>\<open>/p/b.h\<close>, with two shards, in either function.
\<close>

theorem cycle_safety_counterexample:
  "getHeaderSearchDirectories selfIncludeFS [''a.h''] [] [] 1 = None \<and>
   getHeaderSearchDirectories projectFS [''/p/a.cpp'', ''/p/b.h''] [] [] 2 =
     Some ([], [0, 0, 1 / 2, 1], [[''/p/a.cpp''], [''/p/b.h''], [''/p/b.h'']]) \<and>
   count_list (concat [[''/p/a.cpp''], [''/p/b.h''], [''/p/b.h'']]) ''/p/b.h'' = 2 \<and>
   getUnresolvedIncludeDirectives projectFS [''/p/a.cpp'', ''/p/b.h''] [''/p''] [] 2 =
     Some ([\<lparr>includedFile = ''missing.h'', includingFile = ''/p/b.h'', lineNumber = 1,
               usesBrackets = True\<rparr>,
            \<lparr>includedFile = ''vector'', includingFile = ''/p/a.cpp'', lineNumber = 1,
               usesBrackets = True\<rparr>],
           [0, 1 / 2, 1], [[[''/p/a.cpp''], [''/p/b.h'']], [[''/p/b.h'']]]) \<and>
   count_list (concat (concat [[[''/p/a.cpp''], [''/p/b.h'']], [[''/p/b.h'']]])) ''/p/b.h'' = 2"
  using discovery_diverges_on_self_include discovery_run_project run_project by simp

text \<open>
  Claim C6 fails for \<^verbatim>\<open>getHeaderSearchDirectories\<close> on the header that includes itself,
  called with the relative path \<^verbatim>\<open>a.h\<close>: the call does not return, and after \<^verbatim>\<open>progress\<close>
  was called with 0 twice (before the shards, and for the one shard), the state of the
  while loop has a file to process after every number of turns while the progress values
  stay at these two calls. The call with 1 is never made.
\<close>

theorem discovery_progress_stalls_on_self_include:
  "getHeaderSearchDirectories selfIncludeFS [''a.h''] [] [] 1 = None \<and>
   (\<forall>k. unprocessedFilePaths
          ((discoverStep selfIncludeFS [] [] ^^ k) (enterShard [''a.h''] 0 1 discoveryStart)) \<noteq> [] \<and>
        progressValues
          ((discoverStep selfIncludeFS [] [] ^^ k) (enterShard [''a.h''] 0 1 discoveryStart)) = [0, 0])"
  using selfInclude_iterates discovery_diverges_on_self_include by (simp add: selfIncludeInv_def)

end
